theory Spec2Isabelle
  imports Complex_Main
begin

section \<open>Failures\<close>

text \<open>
  The parser stops the process at the first failure: \<^verbatim>\<open>assert(false)\<close> in the
  lexer and in \<^verbatim>\<open>parse_address\<close>, an \<^verbatim>\<open>assert\<close> on a precondition, an
  exception of \<^verbatim>\<open>std::stoi\<close>, \<^verbatim>\<open>std::stod\<close> or \<^verbatim>\<open>substr\<close>. Here every
  such stop is a value \<open>Inl e\<close>. A read of the current element \<^verbatim>\<open>s[i]\<close> past the
  end of the vector, which C++ leaves undefined, is the value \<open>Inl OutOfBounds\<close>. The
  read of the element after the current one in \<^verbatim>\<open>parse_chunk\<close> is not a stop: the
  source goes on with what it has read (see \<open>remaining_plus_1\<close>).
\<close>

datatype error =
    LexError               \<comment> \<open>\<^verbatim>\<open>assert(false)\<close> at a closing delimiter in \<^verbatim>\<open>lex_token\<close>\<close>
  | UnknownAddressLetter   \<comment> \<open>\<^verbatim>\<open>assert(false)\<close> in the default case of \<^verbatim>\<open>parse_address\<close>\<close>
  | NumericFormat          \<comment> \<open>\<^verbatim>\<open>std::invalid_argument\<close> or \<^verbatim>\<open>std::out_of_range\<close> of \<^verbatim>\<open>stoi\<close>, \<^verbatim>\<open>stod\<close>\<close>
  | AssertionFailed        \<comment> \<open>a failed precondition \<^verbatim>\<open>assert\<close> of the parser\<close>
  | TypeMismatch           \<comment> \<open>a failed tag \<^verbatim>\<open>assert\<close> of an accessor of the data model\<close>
  | OutOfBounds            \<comment> \<open>an access past the end of a vector or string\<close>
  | InactiveMember         \<comment> \<open>a read of the member of \<^verbatim>\<open>addr_value\<close> that was not written\<close>

section \<open>Characters and numbers of the C++ library\<close>

definition isdigit :: "char \<Rightarrow> bool" where
  "isdigit c = (c \<in> set ''0123456789'')"

definition isspace :: "char \<Rightarrow> bool" where
  "isspace c = (c \<in> {CHR '' '', CHR 0x09, CHR 0x0A, CHR 0x0B, CHR 0x0C, CHR 0x0D})"

definition digit_of :: "char \<Rightarrow> int" where
  "digit_of c = of_char c - 48"

definition digit_char :: "int \<Rightarrow> char" where
  "digit_char d = ''0123456789'' ! nat d"

definition digits_value :: "string \<Rightarrow> int" where
  "digits_value ds = foldl (\<lambda>a c. 10 * a + digit_of c) 0 ds"

function show_nat :: "int \<Rightarrow> string" where
  "show_nat n = (if n < 10 then [digit_char n] else show_nat (n div 10) @ [digit_char (n mod 10)])"
  by pat_completeness auto
termination
  by (relation "measure nat") auto

declare show_nat.simps [simp del]

text \<open>\<^verbatim>\<open>out << int\<close>: the decimal digits, after a minus sign when negative.\<close>

definition show_int :: "int \<Rightarrow> string" where
  "show_int v = (if v < 0 then CHR ''-'' # show_nat (- v) else show_nat v)"

text \<open>
  \<^verbatim>\<open>std::stoi\<close> is \<^verbatim>\<open>strtol\<close> in base 10: white space is skipped, a sign is
  optional, the longest run of digits is the value. No digit is
  \<^verbatim>\<open>std::invalid_argument\<close>, a value outside the 32-bit \<^verbatim>\<open>int\<close> is
  \<^verbatim>\<open>std::out_of_range\<close>; both are \<open>NumericFormat\<close> here.
\<close>

definition split_sign :: "string \<Rightarrow> bool \<times> string" where
  "split_sign t = (case t of
       [] \<Rightarrow> (False, [])
     | c # r \<Rightarrow> if c = CHR ''-'' then (True, r) else if c = CHR ''+'' then (False, r) else (False, t))"

definition stoi :: "string \<Rightarrow> error + int" where
  "stoi str =
    (let (neg, u) = split_sign (dropWhile isspace str);
         ds = takeWhile isdigit u
     in if ds = [] then Inl NumericFormat
        else let v = (if neg then - digits_value ds else digits_value ds)
             in if v < - (2 ^ 31) \<or> 2 ^ 31 - 1 < v then Inl NumericFormat else Inr v)"

subsection \<open>Doubles\<close>

text \<open>
  A finite \<^verbatim>\<open>double\<close> is its sign and its magnitude, a rational number. The sign is
  kept apart because \<^verbatim>\<open>-0.0\<close> prints as \<^verbatim>\<open>-0\<close> and still compares equal to
  \<^verbatim>\<open>0.0\<close>. Infinities and NaN do not arise: \<^verbatim>\<open>stod\<close> is the only source of
  doubles and throws on overflow.
\<close>

datatype double = Double (negative: bool) (magnitude: rat)

definition double_eq :: "double \<Rightarrow> double \<Rightarrow> bool" where
  "double_eq a b =
     (magnitude a = magnitude b \<and> (negative a = negative b \<or> magnitude a = 0))"

function ndigits :: "int \<Rightarrow> int \<Rightarrow> int" where
  "ndigits b n = (if n < b \<or> b < 2 then 1 else 1 + ndigits b (n div b))"
  by pat_completeness auto
termination
  by (relation "measure (\<lambda>(b, n). nat n)") (auto intro: int_div_less_self)

declare ndigits.simps [simp del]

definition pow_int :: "rat \<Rightarrow> int \<Rightarrow> rat" where
  "pow_int b e = (if 0 \<le> e then b ^ nat e else 1 / b ^ nat (- e))"

text \<open>\<open>floor_log b p q\<close> is the \<open>e\<close> with \<open>b ^ e \<le> p / q < b ^ (e + 1)\<close>, for \<open>p, q > 0\<close>.\<close>

definition floor_log :: "int \<Rightarrow> int \<Rightarrow> int \<Rightarrow> int" where
  "floor_log b p q =
     (let e = ndigits b p - ndigits b q
      in if pow_int (of_int b) e * of_int q \<le> of_int p then e else e - 1)"

definition round_half_even :: "rat \<Rightarrow> int" where
  "round_half_even r =
     (let f = \<lfloor>r\<rfloor>; d = r - of_int f
      in if d < 1 / 2 then f else if 1 / 2 < d then f + 1 else if even f then f else f + 1)"

text \<open>
  The magnitude \<open>p / q\<close> rounded to the nearest binary64 value, ties to even: 53 bits
  above \<open>2 ^ - 1022\<close>, multiples of \<open>2 ^ - 1074\<close> below. \<^verbatim>\<open>strtod\<close> reports
  \<^verbatim>\<open>ERANGE\<close> on overflow, and on a result below the normal range that is not exact;
  \<^verbatim>\<open>std::stod\<close> then throws \<^verbatim>\<open>std::out_of_range\<close>.
\<close>

definition round_binary64 :: "int \<Rightarrow> int \<Rightarrow> error + rat" where
  "round_binary64 p q =
     (if p = 0 then Inr 0
      else let x = of_int p / of_int q;
               u = pow_int 2 (floor_log 2 p q - 52);
               r = of_int (round_half_even (x / u)) * u
           in if pow_int 2 1024 \<le> r then Inl NumericFormat
              else if r < pow_int 2 (- 1022)
              then (let v = pow_int 2 (- 1074);
                        t = of_int (round_half_even (x / v)) * v
                    in if t = x then Inr t else Inl NumericFormat)
              else Inr r)"

text \<open>
  \<^verbatim>\<open>std::stod\<close> is \<^verbatim>\<open>strtod\<close>: white space is skipped, a sign is optional, the
  value is the longest run of digits with at most one point and at least one digit. The
  exponent, hexadecimal, \<^verbatim>\<open>inf\<close> and \<^verbatim>\<open>nan\<close> forms of \<^verbatim>\<open>strtod\<close> are left
  out: \<^verbatim>\<open>parse_chunk\<close> hands over a token only when it starts with a digit, a point
  or a minus sign, and such a token of \<^verbatim>\<open>lex_block\<close> holds no other character.
\<close>

definition stod :: "string \<Rightarrow> error + double" where
  "stod str =
    (let (neg, u) = split_sign (dropWhile isspace str);
         ip = takeWhile isdigit u;
         r = dropWhile isdigit u;
         fp = (case r of [] \<Rightarrow> [] | c # r' \<Rightarrow> if c = CHR ''.'' then takeWhile isdigit r' else [])
     in if ip = [] \<and> fp = [] then Inl NumericFormat
        else case round_binary64 (digits_value (ip @ fp)) (10 ^ length fp) of
               Inl e \<Rightarrow> Inl e
             | Inr m \<Rightarrow> Inr (Double neg m))"

text \<open>
  \<^verbatim>\<open>out << double\<close> with the stream's default flags is \<^verbatim>\<open>printf("%g")\<close> with
  precision 6: six significant digits, scientific notation when the decimal exponent is
  below \<open>- 4\<close> or at least 6, trailing zeros and a trailing point removed.
\<close>

definition strip_zeros :: "string \<Rightarrow> string" where
  "strip_zeros ds = rev (dropWhile (\<lambda>c. c = CHR ''0'') (rev ds))"

definition pad_zeros :: "nat \<Rightarrow> string \<Rightarrow> string" where
  "pad_zeros n ds = replicate (n - length ds) (CHR ''0'') @ ds"

definition with_fraction :: "string \<Rightarrow> string \<Rightarrow> string" where
  "with_fraction ip fp = (if strip_zeros fp = [] then ip else ip @ CHR ''.'' # strip_zeros fp)"

definition show_magnitude :: "rat \<Rightarrow> string" where
  "show_magnitude x =
     (if x = 0 then ''0''
      else let (p, q) = quotient_of x;
               e0 = floor_log 10 p q;
               m0 = round_half_even (x / pow_int 10 (e0 - 5));
               (e, m) = (if m0 = 10 ^ 6 then (e0 + 1, 10 ^ 5) else (e0, m0))
           in if e < - 4 \<or> 6 \<le> e
              then with_fraction (show_nat (m div 10 ^ 5)) (pad_zeros 5 (show_nat (m mod 10 ^ 5)))
                   @ CHR ''e'' # (if e < 0 then CHR ''-'' else CHR ''+'')
                   # pad_zeros 2 (show_nat \<bar>e\<bar>)
              else let k = nat (5 - e)
                   in with_fraction (show_nat (m div 10 ^ k)) (pad_zeros k (show_nat (m mod 10 ^ k))))"

definition show_double :: "double \<Rightarrow> string" where
  "show_double d = (if negative d then CHR ''-'' # show_magnitude (magnitude d)
                    else show_magnitude (magnitude d))"

section \<open>The data model (gcode\_program.h, gcode\_program.cpp)\<close>

datatype address_type = ADDRESS_TYPE_INTEGER | ADDRESS_TYPE_DOUBLE

text \<open>The union \<^verbatim>\<open>addr_value\<close>: the member that was written, with its value.\<close>

datatype addr_value = Dbl_val double | Int_val int

record addr =
  ad_type :: address_type
  val :: addr_value

definition tp :: "addr \<Rightarrow> address_type" where
  "tp a = ad_type a"

definition double_value :: "addr \<Rightarrow> error + double" where
  "double_value a =
     (if tp a = ADDRESS_TYPE_DOUBLE
      then (case val a of Dbl_val d \<Rightarrow> Inr d | Int_val _ \<Rightarrow> Inl InactiveMember)
      else Inl TypeMismatch)"

definition int_value :: "addr \<Rightarrow> error + int" where
  "int_value a =
     (if tp a = ADDRESS_TYPE_INTEGER
      then (case val a of Int_val n \<Rightarrow> Inr n | Dbl_val _ \<Rightarrow> Inl InactiveMember)
      else Inl TypeMismatch)"

definition make_int_address :: "int \<Rightarrow> addr" where
  "make_int_address n = \<lparr>ad_type = ADDRESS_TYPE_INTEGER, val = Int_val n\<rparr>"

definition make_double_address :: "double \<Rightarrow> addr" where
  "make_double_address d = \<lparr>ad_type = ADDRESS_TYPE_DOUBLE, val = Dbl_val d\<rparr>"

definition print_addr :: "addr \<Rightarrow> error + string" where
  "print_addr a =
     (if tp a = ADDRESS_TYPE_DOUBLE
      then (case double_value a of Inl e \<Rightarrow> Inl e | Inr d \<Rightarrow> Inr (show_double d))
      else (case int_value a of Inl e \<Rightarrow> Inl e | Inr n \<Rightarrow> Inr (show_int n)))"

datatype chunk_type =
  CHUNK_TYPE_COMMENT | CHUNK_TYPE_WORD_ADDRESS | CHUNK_TYPE_PERCENT | CHUNK_TYPE_WORD

text \<open>
  A \<^verbatim>\<open>chunk\<close> carries its tag and the fields its constructor fills: the three
  fields of \<^verbatim>\<open>comment_data\<close>, the letter and address of \<^verbatim>\<open>word_address_data\<close>,
  or the single character.
\<close>

datatype chunk =
    Comment char char string
  | WordAddress char addr
  | Percent
  | Word char

fun chunk_tp :: "chunk \<Rightarrow> chunk_type" where
  "chunk_tp (Comment l r t) = CHUNK_TYPE_COMMENT"
| "chunk_tp (WordAddress c a) = CHUNK_TYPE_WORD_ADDRESS"
| "chunk_tp Percent = CHUNK_TYPE_PERCENT"
| "chunk_tp (Word c) = CHUNK_TYPE_WORD"

definition make_comment :: "char \<Rightarrow> char \<Rightarrow> string \<Rightarrow> chunk" where
  "make_comment start_delim end_delim comment_text = Comment start_delim end_delim comment_text"

definition make_isolated_word :: "char \<Rightarrow> chunk" where
  "make_isolated_word c = Word c"

definition make_word_int :: "char \<Rightarrow> int \<Rightarrow> chunk" where
  "make_word_int c n = WordAddress c (make_int_address n)"

definition make_word_double :: "char \<Rightarrow> double \<Rightarrow> chunk" where
  "make_word_double c d = WordAddress c (make_double_address d)"

definition make_percent_chunk :: chunk where
  "make_percent_chunk = Percent"

fun print_chunk :: "chunk \<Rightarrow> error + string" where
  "print_chunk (Comment l r t) = Inr (l # t @ [r])"
| "print_chunk (WordAddress c a) =
     (case print_addr a of Inl e \<Rightarrow> Inl e | Inr n \<Rightarrow> Inr (c # n))"
| "print_chunk Percent = Inr ''%''"
| "print_chunk (Word c) = Inr [c]"

record block =
  has_line_no :: bool
  line_no :: int
  slashed_out :: bool
  chunks :: "chunk list"
  debug_text :: string

text \<open>The two constructors of \<^verbatim>\<open>block\<close>, with and without a line number.\<close>

definition block_numbered :: "int \<Rightarrow> bool \<Rightarrow> chunk list \<Rightarrow> block" where
  "block_numbered p_line_no p_slashed_out p_chunks =
     \<lparr>has_line_no = True, line_no = p_line_no, slashed_out = p_slashed_out,
      chunks = p_chunks, debug_text = []\<rparr>"

definition block_plain :: "bool \<Rightarrow> chunk list \<Rightarrow> block" where
  "block_plain p_slashed_out p_chunks =
     \<lparr>has_line_no = False, line_no = - 1, slashed_out = p_slashed_out,
      chunks = p_chunks, debug_text = []\<rparr>"

definition is_deleted :: "block \<Rightarrow> bool" where
  "is_deleted b = slashed_out b"

definition has_line_number :: "block \<Rightarrow> bool" where
  "has_line_number b = has_line_no b"

definition line_number :: "block \<Rightarrow> error + int" where
  "line_number b = (if has_line_number b then Inr (line_no b) else Inl AssertionFailed)"

text \<open>The loop of \<^verbatim>\<open>block::print\<close>: every chunk, then one space.\<close>

fun print_chunks :: "chunk list \<Rightarrow> string \<Rightarrow> error + string" where
  "print_chunks [] out = Inr out"
| "print_chunks (c # cs) out =
     (case print_chunk c of Inl e \<Rightarrow> Inl e | Inr t \<Rightarrow> print_chunks cs (out @ t @ '' ''))"

definition print_block :: "block \<Rightarrow> error + string" where
  "print_block b =
     (if has_line_number b
      then (case line_number b of
              Inl e \<Rightarrow> Inl e
            | Inr n \<Rightarrow> print_chunks (chunks b) (''N'' @ show_int n @ '' ''))
      else print_chunks (chunks b) [])"

text \<open>\<^verbatim>\<open>operator<<\<close> on a program: every block, then \<^verbatim>\<open>endl\<close>.\<close>

fun print_program :: "block list \<Rightarrow> string \<Rightarrow> error + string" where
  "print_program [] out = Inr out"
| "print_program (b # bs) out =
     (case print_block b of Inl e \<Rightarrow> Inl e | Inr t \<Rightarrow> print_program bs (out @ t @ [CHR 0x0A]))"

section \<open>The cursor \<^verbatim>\<open>parse_stream\<close> (parser.cpp)\<close>

text \<open>The fields \<^verbatim>\<open>i\<close> and \<^verbatim>\<open>s\<close> of \<^verbatim>\<open>parse_stream\<close>.\<close>

record 'a parse_stream =
  ps_i :: nat
  ps_s :: "'a list"

definition parse_stream :: "'a list \<Rightarrow> 'a parse_stream" where
  "parse_stream v = \<lparr>ps_i = 0, ps_s = v\<rparr>"

definition chars_left :: "'a parse_stream \<Rightarrow> bool" where
  "chars_left ps = (ps_i ps < length (ps_s ps))"

text \<open>\<^verbatim>\<open>next()\<close> is \<^verbatim>\<open>s[i]\<close>, with no check of its own.\<close>

definition stream_next :: "'a parse_stream \<Rightarrow> error + 'a" where
  "stream_next ps = (if ps_i ps < length (ps_s ps) then Inr (ps_s ps ! ps_i ps) else Inl OutOfBounds)"

text \<open>\<^verbatim>\<open>s++\<close>.\<close>

definition advance :: "'a parse_stream \<Rightarrow> 'a parse_stream" where
  "advance ps = ps\<lparr>ps_i := ps_i ps + 1\<rparr>"

text \<open>\<open>next_is P ps\<close> is the loop test \<^verbatim>\<open>s.chars_left() && P(s.next())\<close>.\<close>

definition next_is :: "('a \<Rightarrow> bool) \<Rightarrow> 'a parse_stream \<Rightarrow> bool" where
  "next_is P ps = (chars_left ps \<and> (case stream_next ps of Inr c \<Rightarrow> P c | Inl e \<Rightarrow> False))"

section \<open>The character lexer (parser.cpp)\<close>

definition is_num_char :: "char \<Rightarrow> bool" where
  "is_num_char c = (isdigit c \<or> c = CHR ''.'' \<or> c = CHR ''-'')"

function ignore_whitespace :: "char parse_stream \<Rightarrow> char parse_stream" where
  "ignore_whitespace ps =
     (if next_is (\<lambda>c. isspace c \<or> c = CHR 0x0D) ps then ignore_whitespace (advance ps) else ps)"
  by pat_completeness auto
termination
  by (relation "measure (\<lambda>ps. length (ps_s ps) - ps_i ps)")
     (auto simp: next_is_def chars_left_def advance_def)

declare ignore_whitespace.simps [simp del]

function digit_string_loop :: "string \<Rightarrow> char parse_stream \<Rightarrow> string \<times> char parse_stream" where
  "digit_string_loop num_str ps =
     (if next_is is_num_char ps
      then digit_string_loop (num_str @ [ps_s ps ! ps_i ps]) (advance ps)
      else (num_str, ps))"
  by pat_completeness auto
termination
  by (relation "measure (\<lambda>(n, ps). length (ps_s ps) - ps_i ps)")
     (auto simp: next_is_def chars_left_def advance_def)

declare digit_string_loop.simps [simp del]

definition digit_string :: "char parse_stream \<Rightarrow> string \<times> char parse_stream" where
  "digit_string ps = digit_string_loop [] ps"

text \<open>
  The \<^verbatim>\<open>do ... while\<close> of \<^verbatim>\<open>parse_comment_with_delimiters\<close> on characters: the
  body runs before the first test, so the first \<^verbatim>\<open>s.next()\<close> is unguarded.
\<close>

function comment_loop ::
  "char \<Rightarrow> char \<Rightarrow> int \<Rightarrow> string \<Rightarrow> char parse_stream \<Rightarrow> error + string \<times> char parse_stream" where
  "comment_loop sc ec depth text ps =
     (case stream_next ps of
        Inl e \<Rightarrow> Inl e
      | Inr c \<Rightarrow>
          (let depth' = (if c = sc then depth + 1 else if c = ec then depth - 1 else depth);
               text' = text @ [c];
               ps' = advance ps
           in if chars_left ps' \<and> 0 < depth' then comment_loop sc ec depth' text' ps'
              else Inr (text', ps')))"
  by pat_completeness auto
termination
  by (relation "measure (\<lambda>(sc, ec, d, t, ps). length (ps_s ps) - ps_i ps)")
     (auto simp: chars_left_def advance_def)

declare comment_loop.simps [simp del]

definition parse_comment_with_delimiters ::
  "char \<Rightarrow> char \<Rightarrow> char parse_stream \<Rightarrow> error + string \<times> char parse_stream" where
  "parse_comment_with_delimiters sc ec ps = comment_loop sc ec 0 [] ps"

definition lex_token :: "char parse_stream \<Rightarrow> error + string \<times> char parse_stream" where
  "lex_token ps =
     (if \<not> chars_left ps then Inl AssertionFailed
      else case stream_next ps of
        Inl e \<Rightarrow> Inl e
      | Inr c \<Rightarrow>
          if is_num_char c then Inr (digit_string ps)
          else if c = CHR ''('' then parse_comment_with_delimiters (CHR ''('') (CHR '')'') ps
          else if c = CHR ''['' then parse_comment_with_delimiters (CHR ''['') (CHR '']'') ps
          else if c = CHR '')'' then Inl LexError
          else if c = CHR '']'' then Inl LexError
          else Inr ([c], advance ps))"

text \<open>
  What the comment scan returns, as a function of the characters from the cursor on and
  the depth so far: every character up to and including the one that brings the depth
  back to 0, or all of them when none does.
\<close>

fun comment_span :: "char \<Rightarrow> char \<Rightarrow> int \<Rightarrow> string \<Rightarrow> string" where
  "comment_span sc ec d [] = []"
| "comment_span sc ec d (c # cs) =
     (let d' = (if c = sc then d + 1 else if c = ec then d - 1 else d)
      in if 0 < d' then c # comment_span sc ec d' cs else [c])"

lemma next_is_iff:
  "next_is P ps \<longleftrightarrow> ps_i ps < length (ps_s ps) \<and> P (ps_s ps ! ps_i ps)"
  by (simp add: next_is_def chars_left_def stream_next_def)

lemma ignore_whitespace_eq:
  "ignore_whitespace ps =
     ps\<lparr>ps_i := ps_i ps + length (takeWhile (\<lambda>c. isspace c \<or> c = CHR 0x0D) (drop (ps_i ps) (ps_s ps)))\<rparr>"
proof (induction ps rule: ignore_whitespace.induct)
  case (1 ps)
  show ?case
  proof (cases "next_is (\<lambda>c. isspace c \<or> c = CHR 0x0D) ps")
    case True
    then have lt: "ps_i ps < length (ps_s ps)"
      by (simp add: next_is_iff)
    then have d: "drop (ps_i ps) (ps_s ps) = ps_s ps ! ps_i ps # drop (Suc (ps_i ps)) (ps_s ps)"
      by (simp add: Cons_nth_drop_Suc)
    show ?thesis
      using "1" [OF True] True
      by (subst ignore_whitespace.simps) (simp add: next_is_iff advance_def d)
  next
    case False
    then show ?thesis
      by (subst ignore_whitespace.simps)
         (cases "ps_i ps < length (ps_s ps)"; simp add: next_is_iff takeWhile_eq_Nil_iff hd_drop_conv_nth)
  qed
qed

lemma digit_string_loop_eq:
  "digit_string_loop acc ps =
     (acc @ takeWhile is_num_char (drop (ps_i ps) (ps_s ps)),
      ps\<lparr>ps_i := ps_i ps + length (takeWhile is_num_char (drop (ps_i ps) (ps_s ps)))\<rparr>)"
proof (induction acc ps rule: digit_string_loop.induct)
  case (1 acc ps)
  show ?case
  proof (cases "next_is is_num_char ps")
    case True
    then have lt: "ps_i ps < length (ps_s ps)"
      by (simp add: next_is_iff)
    then have d: "drop (ps_i ps) (ps_s ps) = ps_s ps ! ps_i ps # drop (Suc (ps_i ps)) (ps_s ps)"
      by (simp add: Cons_nth_drop_Suc)
    show ?thesis
      using "1" [OF True] True
      by (subst digit_string_loop.simps) (simp add: next_is_iff advance_def d)
  next
    case False
    then show ?thesis
      by (subst digit_string_loop.simps)
         (cases "ps_i ps < length (ps_s ps)"; simp add: next_is_iff takeWhile_eq_Nil_iff hd_drop_conv_nth)
  qed
qed

lemma comment_loop_eq:
  "ps_i ps < length (ps_s ps) \<Longrightarrow>
   comment_loop sc ec d acc ps =
     Inr (acc @ comment_span sc ec d (drop (ps_i ps) (ps_s ps)),
          ps\<lparr>ps_i := ps_i ps + length (comment_span sc ec d (drop (ps_i ps) (ps_s ps)))\<rparr>)"
proof (induction sc ec d acc ps rule: comment_loop.induct)
  case (1 sc ec depth acc ps)
  let ?c = "ps_s ps ! ps_i ps"
  let ?d = "if ?c = sc then depth + 1 else if ?c = ec then depth - 1 else depth"
  have nx: "stream_next ps = Inr ?c"
    using "1.prems" by (simp add: stream_next_def)
  have d: "drop (ps_i ps) (ps_s ps) = ?c # drop (Suc (ps_i ps)) (ps_s ps)"
    using "1.prems" by (simp add: Cons_nth_drop_Suc)
  show ?case
  proof (cases "chars_left (advance ps) \<and> 0 < ?d")
    case True
    then have lt: "ps_i (advance ps) < length (ps_s (advance ps))"
      by (simp add: chars_left_def)
    have ih: "comment_loop sc ec ?d (acc @ [?c]) (advance ps) =
        Inr ((acc @ [?c]) @ comment_span sc ec ?d (drop (ps_i (advance ps)) (ps_s (advance ps))),
          (advance ps)\<lparr>ps_i := ps_i (advance ps) + length (comment_span sc ec ?d (drop (ps_i (advance ps)) (ps_s (advance ps))))\<rparr>)"
      using True by (intro "1.IH" [OF nx refl refl refl _ lt]) simp
    show ?thesis
      using True ih
      by (subst comment_loop.simps) (simp add: nx d Let_def advance_def)
  next
    case False
    then have "\<not> 0 < ?d \<or> drop (Suc (ps_i ps)) (ps_s ps) = []"
      by (auto simp: chars_left_def advance_def)
    then show ?thesis
      using False
      by (subst comment_loop.simps) (auto simp add: nx d Let_def advance_def)
  qed
qed

lemma comment_span_not_Nil: "xs \<noteq> [] \<Longrightarrow> comment_span sc ec d xs \<noteq> []"
  by (cases xs) (simp_all add: Let_def)

lemma comment_span_prefix: "take (length (comment_span sc ec d xs)) xs = comment_span sc ec d xs"
  by (induction xs arbitrary: d) (simp_all add: Let_def)

lemma comment_span_length: "length (comment_span sc ec d xs) \<le> length xs"
  by (induction xs arbitrary: d) (simp_all add: Let_def)

lemma lex_token_progress:
  assumes "lex_token ps = Inr (tok, ps')"
  shows "ps_s ps' = ps_s ps \<and> ps_i ps' = ps_i ps + length tok \<and> tok \<noteq> []
         \<and> take (length tok) (drop (ps_i ps) (ps_s ps)) = tok"
proof -
  from assms have lt: "ps_i ps < length (ps_s ps)"
    by (simp add: lex_token_def chars_left_def split: if_splits)
  let ?c = "ps_s ps ! ps_i ps"
  let ?r = "drop (ps_i ps) (ps_s ps)"
  have nx: "stream_next ps = Inr ?c"
    using lt by (simp add: stream_next_def)
  have d: "?r = ?c # drop (Suc (ps_i ps)) (ps_s ps)"
    using lt by (simp add: Cons_nth_drop_Suc)
  have ne: "?r \<noteq> []"
    using lt by simp
  consider (num) "is_num_char ?c"
    | (paren) "\<not> is_num_char ?c" "?c = CHR ''(''"
    | (brack) "\<not> is_num_char ?c" "?c = CHR ''[''"
    | (other) "\<not> is_num_char ?c" "?c \<noteq> CHR ''(''" "?c \<noteq> CHR ''[''"
    by blast
  then show ?thesis
  proof cases
    case num
    then have "tok = takeWhile is_num_char ?r"
      and "ps' = ps\<lparr>ps_i := ps_i ps + length (takeWhile is_num_char ?r)\<rparr>"
      using assms lt
      by (auto simp add: lex_token_def chars_left_def nx digit_string_def digit_string_loop_eq)
    moreover have "takeWhile is_num_char ?r \<noteq> []"
      using num by (subst d) simp
    moreover have "take (length (takeWhile is_num_char ?r)) ?r = takeWhile is_num_char ?r"
      by (metis append_eq_conv_conj takeWhile_dropWhile_id)
    ultimately show ?thesis by simp
  next
    case paren
    then have "Inr (tok, ps') = comment_loop (CHR ''('') (CHR '')'') 0 [] ps"
      using assms lt
      by (simp add: lex_token_def chars_left_def nx parse_comment_with_delimiters_def)
    then show ?thesis
      using comment_span_not_Nil [OF ne] comment_span_prefix
      by (simp add: comment_loop_eq [OF lt])
  next
    case brack
    then have "Inr (tok, ps') = comment_loop (CHR ''['') (CHR '']'') 0 [] ps"
      using assms lt
      by (simp add: lex_token_def chars_left_def nx parse_comment_with_delimiters_def)
    then show ?thesis
      using comment_span_not_Nil [OF ne] comment_span_prefix
      by (simp add: comment_loop_eq [OF lt])
  next
    case other
    then have "tok = [?c]" and "ps' = advance ps"
      using assms lt
      by (simp_all add: lex_token_def chars_left_def nx split: if_splits)
    then show ?thesis
      by (simp add: advance_def d)
  qed
qed

function lex_block_loop :: "string list \<Rightarrow> char parse_stream \<Rightarrow> error + string list" where
  "lex_block_loop tokens ps =
     (if chars_left ps
      then (let ps1 = ignore_whitespace ps
            in if chars_left ps1
               then (case lex_token ps1 of
                       Inl e \<Rightarrow> Inl e
                     | Inr (token, ps2) \<Rightarrow> lex_block_loop (tokens @ [token]) ps2)
               else lex_block_loop tokens ps1)
      else Inr tokens)"
  by pat_completeness auto
termination
proof (relation "measure (\<lambda>(tokens, ps). length (ps_s ps) - ps_i ps)", goal_cases)
  case 1
  show ?case by simp
next
  case (2 tokens ps ps1 x2 token ps2)
  then have "ps_s ps2 = ps_s ps1" and "ps_i ps1 < ps_i ps2"
    using lex_token_progress [of ps1 token ps2] by simp_all
  moreover have "ps_s ps1 = ps_s ps" and "ps_i ps \<le> ps_i ps1"
    using 2 by (simp_all add: ignore_whitespace_eq)
  ultimately show ?case
    using 2 by (simp add: chars_left_def)
next
  case (3 tokens ps ps1)
  then show ?case
    by (simp add: chars_left_def ignore_whitespace_eq)
qed

declare lex_block_loop.simps [simp del]

definition lex_block :: "string \<Rightarrow> error + string list" where
  "lex_block block_text = lex_block_loop [] (ignore_whitespace (parse_stream block_text))"

section \<open>The token parser (parser.cpp)\<close>

definition parse_double :: "string parse_stream \<Rightarrow> error + double \<times> string parse_stream" where
  "parse_double ps =
     (case stream_next ps of
        Inl e \<Rightarrow> Inl e
      | Inr t \<Rightarrow> (case stod t of Inl e \<Rightarrow> Inl e | Inr v \<Rightarrow> Inr (v, advance ps)))"

definition parse_int :: "string parse_stream \<Rightarrow> error + int \<times> string parse_stream" where
  "parse_int ps =
     (case stream_next ps of
        Inl e \<Rightarrow> Inl e
      | Inr t \<Rightarrow> (case stoi t of Inl e \<Rightarrow> Inl e | Inr n \<Rightarrow> Inr (n, advance ps)))"

text \<open>The \<^verbatim>\<open>case\<close> labels of \<^verbatim>\<open>parse_address\<close>, in the order of the source.\<close>

definition double_letters :: string where
  "double_letters = ''XYZABCUVWIJKFRQSxyzabcuvwijkfrsqE''"

definition int_letters :: string where
  "int_letters = ''GHMNOTPDLghmnotpdl''"

definition parse_address :: "char \<Rightarrow> string parse_stream \<Rightarrow> error + addr \<times> string parse_stream" where
  "parse_address c ps =
     (if c \<in> set double_letters
      then (case parse_double ps of
              Inl e \<Rightarrow> Inl e
            | Inr (v, ps') \<Rightarrow> Inr (make_double_address v, ps'))
      else if c \<in> set int_letters
      then (case parse_int ps of
              Inl e \<Rightarrow> Inl e
            | Inr (n, ps') \<Rightarrow> Inr (make_int_address n, ps'))
      else Inl UnknownAddressLetter)"

function line_comment_loop :: "string \<Rightarrow> string parse_stream \<Rightarrow> string \<times> string parse_stream" where
  "line_comment_loop text ps =
     (if chars_left ps then line_comment_loop (text @ ps_s ps ! ps_i ps) (advance ps)
      else (text, ps))"
  by pat_completeness auto
termination
  by (relation "measure (\<lambda>(t, ps). length (ps_s ps) - ps_i ps)")
     (auto simp: chars_left_def advance_def)

declare line_comment_loop.simps [simp del]

definition parse_line_comment_with_delimiter ::
  "string \<Rightarrow> string parse_stream \<Rightarrow> string \<times> string parse_stream" where
  "parse_line_comment_with_delimiter sc ps = line_comment_loop [] ps"

text \<open>\<^verbatim>\<open>t[0]\<close> on a \<^verbatim>\<open>std::string\<close>: the terminating NUL when the string is empty.\<close>

definition front :: "string \<Rightarrow> char" where
  "front t = (case t of [] \<Rightarrow> CHR 0x00 | c # r \<Rightarrow> c)"

text \<open>
  \<^verbatim>\<open>cs.substr(pos, n)\<close> throws \<^verbatim>\<open>std::out_of_range\<close> when \<^verbatim>\<open>pos\<close> is beyond
  the size, and \<^verbatim>\<open>cs.size() - 2\<close> is computed in the 64-bit \<^verbatim>\<open>size_t\<close>.
\<close>

definition substr :: "string \<Rightarrow> nat \<Rightarrow> nat \<Rightarrow> error + string" where
  "substr str pos n = (if length str < pos then Inl OutOfBounds else Inr (take n (drop pos str)))"

definition size_t_minus :: "nat \<Rightarrow> nat \<Rightarrow> nat" where
  "size_t_minus a b = (a + 2 ^ 64 - b) mod 2 ^ 64"

definition parse_isolated_word :: "string parse_stream \<Rightarrow> error + chunk \<times> string parse_stream" where
  "parse_isolated_word ps =
     (if \<not> chars_left ps then Inl AssertionFailed
      else case stream_next ps of
        Inl e \<Rightarrow> Inl e
      | Inr t \<Rightarrow>
          if length t \<noteq> 1 then Inl AssertionFailed
          else Inr (make_isolated_word (front t), advance ps))"

definition parse_word_address :: "string parse_stream \<Rightarrow> error + chunk \<times> string parse_stream" where
  "parse_word_address ps =
     (if \<not> chars_left ps then Inl AssertionFailed
      else case stream_next ps of
        Inl e \<Rightarrow> Inl e
      | Inr t \<Rightarrow>
          if length t \<noteq> 1 then Inl AssertionFailed
          else (case parse_address (front t) (advance ps) of
                  Inl e \<Rightarrow> Inl e
                | Inr (a, ps') \<Rightarrow> Inr (WordAddress (front t) a, ps')))"

text \<open>
  \<^verbatim>\<open>*(s.remaining() + 1)\<close>: the token after the current one. The source reads it
  with no check and goes on with what it has read. With one token left the read is behind
  the last element of the vector, which C++ leaves undefined: \<open>beyond\<close> stands for what
  such a read yields, and every function from \<^verbatim>\<open>parse_chunk\<close> up to
  \<^verbatim>\<open>parse_gcode\<close> takes it as its first argument.
\<close>

definition remaining_plus_1 :: "'a \<Rightarrow> 'a parse_stream \<Rightarrow> 'a" where
  "remaining_plus_1 beyond ps =
     (if ps_i ps + 1 < length (ps_s ps) then ps_s ps ! (ps_i ps + 1) else beyond)"

definition parse_chunk :: "string \<Rightarrow> string parse_stream \<Rightarrow> error + chunk \<times> string parse_stream" where
  "parse_chunk beyond ps =
     (if \<not> chars_left ps then Inl AssertionFailed
      else case stream_next ps of
        Inl e \<Rightarrow> Inl e
      | Inr t \<Rightarrow>
          if front t = CHR ''[''
          then (case substr t 1 (size_t_minus (length t) 2) of
                  Inl e \<Rightarrow> Inl e
                | Inr inner \<Rightarrow> Inr (Comment (CHR ''['') (CHR '']'') inner, advance ps))
          else if front t = CHR ''(''
          then (case substr t 1 (size_t_minus (length t) 2) of
                  Inl e \<Rightarrow> Inl e
                | Inr inner \<Rightarrow> Inr (Comment (CHR ''('') (CHR '')'') inner, advance ps))
          else if t = ''%'' then Inr (make_percent_chunk, advance ps)
          else if t = '';''
          then (let (cs, ps') = parse_line_comment_with_delimiter '';'' (advance ps)
                in Inr (Comment (CHR '';'') (CHR '';'') cs, ps'))
          else (let next_next = remaining_plus_1 beyond ps
                in if \<not> is_num_char (front next_next) then parse_isolated_word ps
                   else parse_word_address ps))"

definition is_slash :: "string \<Rightarrow> bool" where
  "is_slash t = (if length t \<noteq> 1 then False else front t = CHR ''/'')"

definition parse_slash :: "string parse_stream \<Rightarrow> error + bool \<times> string parse_stream" where
  "parse_slash ps =
     (case stream_next ps of
        Inl e \<Rightarrow> Inl e
      | Inr t \<Rightarrow> if is_slash t then Inr (True, advance ps) else Inr (False, ps))"

definition parse_line_number ::
  "string parse_stream \<Rightarrow> error + (bool \<times> int) \<times> string parse_stream" where
  "parse_line_number ps =
     (case stream_next ps of
        Inl e \<Rightarrow> Inl e
      | Inr t \<Rightarrow>
          if t = ''N''
          then (case parse_int (advance ps) of
                  Inl e \<Rightarrow> Inl e
                | Inr (n, ps') \<Rightarrow> Inr ((True, n), ps'))
          else Inr ((False, - 1), ps))"

lemma line_comment_loop_eq:
  "line_comment_loop acc ps =
     (acc @ concat (drop (ps_i ps) (ps_s ps)), ps\<lparr>ps_i := max (ps_i ps) (length (ps_s ps))\<rparr>)"
proof (induction acc ps rule: line_comment_loop.induct)
  case (1 acc ps)
  show ?case
  proof (cases "chars_left ps")
    case True
    then have d: "drop (ps_i ps) (ps_s ps) = ps_s ps ! ps_i ps # drop (Suc (ps_i ps)) (ps_s ps)"
      by (simp add: chars_left_def Cons_nth_drop_Suc)
    show ?thesis
      using "1" [OF True] True
      by (subst line_comment_loop.simps) (simp add: chars_left_def advance_def d max_def)
  next
    case False
    then show ?thesis
      by (subst line_comment_loop.simps) (simp add: chars_left_def max_def)
  qed
qed

lemma parse_address_progress:
  "parse_address c ps = Inr (a, ps') \<Longrightarrow> ps_s ps' = ps_s ps \<and> ps_i ps' = ps_i ps + 1"
  by (auto simp: parse_address_def parse_double_def parse_int_def advance_def
           split: if_splits sum.splits)

lemma parse_chunk_progress:
  assumes "parse_chunk beyond ps = Inr (ch, ps')"
  shows "ps_s ps' = ps_s ps \<and> ps_i ps < ps_i ps'"
proof -
  from assms have lt: "ps_i ps < length (ps_s ps)"
    by (simp add: parse_chunk_def chars_left_def split: if_splits)
  then have nx: "stream_next ps = Inr (ps_s ps ! ps_i ps)"
    by (simp add: stream_next_def)
  show ?thesis
    using assms lt
    by (auto simp: parse_chunk_def chars_left_def nx substr_def advance_def
          parse_line_comment_with_delimiter_def line_comment_loop_eq
          parse_isolated_word_def parse_word_address_def
          split: if_splits sum.splits dest!: parse_address_progress)
qed

function parse_chunks_loop :: "string \<Rightarrow> chunk list \<Rightarrow> string parse_stream \<Rightarrow> error + chunk list" where
  "parse_chunks_loop beyond chs ps =
     (if chars_left ps
      then (case parse_chunk beyond ps of
              Inl e \<Rightarrow> Inl e
            | Inr (ch, ps') \<Rightarrow> parse_chunks_loop beyond (chs @ [ch]) ps')
      else Inr chs)"
  by pat_completeness auto
termination
proof (relation "measure (\<lambda>(beyond, chs, ps). length (ps_s ps) - ps_i ps)", goal_cases)
  case 1
  show ?case by simp
next
  case (2 beyond chs ps x2 ch ps')
  then show ?case
    using parse_chunk_progress [of beyond ps ch ps'] by (auto simp: chars_left_def)
qed

declare parse_chunks_loop.simps [simp del]

definition parse_tokens :: "string \<Rightarrow> string list \<Rightarrow> error + block" where
  "parse_tokens beyond tokens =
     (if length tokens = 0 then Inr (block_plain False [])
      else case parse_slash (parse_stream tokens) of
        Inl e \<Rightarrow> Inl e
      | Inr (is_slashed, s1) \<Rightarrow>
          (case parse_line_number s1 of
             Inl e \<Rightarrow> Inl e
           | Inr (ln_pair, s2) \<Rightarrow>
               (case parse_chunks_loop beyond [] s2 of
                  Inl e \<Rightarrow> Inl e
                | Inr chs \<Rightarrow>
                    if fst ln_pair then Inr (block_numbered (snd ln_pair) is_slashed chs)
                    else Inr (block_plain is_slashed chs))))"

section \<open>The program assembler (parser.cpp)\<close>

text \<open>
  \<^verbatim>\<open>lex_gprog\<close>: \<open>line_start\<close> is the offset of the iterator of that name, and the
  line runs to the next newline or to the end of the text.
\<close>

function lex_gprog_loop :: "string \<Rightarrow> string \<Rightarrow> block list \<Rightarrow> nat \<Rightarrow> error + block list" where
  "lex_gprog_loop beyond str blocks line_start =
     (if line_start < length str
      then (let line = takeWhile (\<lambda>c. c \<noteq> CHR 0x0A) (drop line_start str)
            in if 0 < length line
               then (case lex_block line of
                       Inl e \<Rightarrow> Inl e
                     | Inr line_tokens \<Rightarrow>
                         (case parse_tokens beyond line_tokens of
                            Inl e \<Rightarrow> Inl e
                          | Inr b \<Rightarrow>
                              lex_gprog_loop beyond str (blocks @ [b]) (line_start + length line + 1)))
               else lex_gprog_loop beyond str blocks (line_start + length line + 1))
      else Inr blocks)"
  by pat_completeness auto
termination
  by (relation "measure (\<lambda>(beyond, str, blocks, line_start). length str - line_start)") auto

declare lex_gprog_loop.simps [simp del]

definition lex_gprog :: "string \<Rightarrow> string \<Rightarrow> error + block list" where
  "lex_gprog beyond str = lex_gprog_loop beyond str [] 0"

text \<open>A \<^verbatim>\<open>gcode_program\<close> is the vector of its blocks.\<close>

type_synonym gcode_program = "block list"

definition parse_gcode :: "string \<Rightarrow> string \<Rightarrow> error + gcode_program" where
  "parse_gcode beyond program_text = lex_gprog beyond program_text"

section \<open>Evaluation on concrete lines\<close>

lemma ndigits_small: "ndigits 2 1 = 1" "ndigits 2 9 = 4"
  by (simp_all add: ndigits.simps)

lemma stod_1: "stod ''1'' = Inr (Double False 1)"
  by (simp add: stod_def split_sign_def isspace_def isdigit_def digits_value_def digit_of_def
      round_binary64_def floor_log_def ndigits_small pow_int_def round_half_even_def Let_def)


lemma stoi_small: "stoi ''1'' = Inr 1" "stoi ''5'' = Inr 5"
  by (simp_all add: stoi_def split_sign_def isspace_def isdigit_def digits_value_def digit_of_def
      Let_def)

lemmas lex_eval =
  lex_block_def lex_block_loop.simps ignore_whitespace.simps lex_token_def
  digit_string_def digit_string_loop.simps parse_comment_with_delimiters_def comment_loop.simps
  next_is_def chars_left_def stream_next_def advance_def parse_stream_def
  is_num_char_def isdigit_def isspace_def Let_def

lemmas parse_eval =
  parse_tokens_def parse_slash_def is_slash_def parse_line_number_def parse_chunks_loop.simps
  parse_chunk_def parse_isolated_word_def parse_word_address_def parse_address_def
  parse_double_def parse_int_def remaining_plus_1_def front_def substr_def size_t_minus_def
  parse_line_comment_with_delimiter_def line_comment_loop.simps
  double_letters_def int_letters_def make_percent_chunk_def make_isolated_word_def
  chars_left_def stream_next_def advance_def parse_stream_def
  is_num_char_def isdigit_def Let_def

lemmas prog_eval = parse_gcode_def lex_gprog_def lex_gprog_loop.simps

lemma lex_slash_line:
  "lex_block ''/N5 G1 X1'' = Inr [''/'', ''N'', ''5'', ''G'', ''1'', ''X'', ''1'']"
  by (simp add: lex_eval)

lemma parse_slash_line:
  "parse_tokens beyond [''/'', ''N'', ''5'', ''G'', ''1'', ''X'', ''1''] =
     Inr (block_numbered 5 True
            [make_word_int (CHR ''G'') 1, make_word_double (CHR ''X'') (Double False 1)])"
  by (simp add: parse_eval stoi_small stod_1 make_word_int_def make_word_double_def)


section \<open>The address classifier\<close>

text \<open>
  Claim C2. The classifier is meant to be case-insensitive over the double letters
  X Y Z A B C U V W I J K F R Q S E and the integer letters G H M N O T P D L. The
  \<^verbatim>\<open>switch\<close> has the label \<^verbatim>\<open>'E'\<close> but no label \<^verbatim>\<open>'e'\<close>: the line \<^verbatim>\<open>e1\<close>
  stops in the default case, while \<^verbatim>\<open>E1\<close> is the double-valued word E 1.
\<close>

theorem lowercase_e_unclassified:
  "parse_gcode beyond ''e1'' = Inl UnknownAddressLetter
   \<and> parse_gcode beyond ''E1'' =
       Inr [block_plain False [make_word_double (CHR ''E'') (Double False 1)]]
   \<and> parse_address (CHR ''e'') (parse_stream [''1'']) = Inl UnknownAddressLetter"
  by (simp add: prog_eval lex_eval parse_eval stod_1 make_word_double_def)



section \<open>Scenarios\<close>

text \<open>
  Claim C6. The line \<^verbatim>\<open>/N5 G1 X1\<close> parses to one block: deleted, with the line
  number 5, and with exactly the two words G with the integer 1 and X with the double 1.
\<close>

theorem slash_line_scenario:
  "parse_gcode beyond ''/N5 G1 X1'' =
     Inr [block_numbered 5 True
            [make_word_int (CHR ''G'') 1, make_word_double (CHR ''X'') (Double False 1)]]
   \<and> is_deleted (block_numbered 5 True cs)
   \<and> has_line_number (block_numbered 5 True cs)
   \<and> line_number (block_numbered 5 True cs) = Inr 5
   \<and> chunks (block_numbered 5 True cs) = cs"
  by (simp add: prog_eval lex_slash_line parse_slash_line block_numbered_def is_deleted_def
      has_line_number_def line_number_def)

section \<open>Addresses\<close>

text \<open>
  Claim C8. The tag of an address is the one its constructor sets. The accessor of
  that type returns the value given at construction, the accessor of the other type
  fails with the type mismatch, and an accessor whose tag matches never does.
\<close>

theorem addr_accessor_contract:
  "tp (make_int_address n) = ADDRESS_TYPE_INTEGER
   \<and> int_value (make_int_address n) = Inr n
   \<and> double_value (make_int_address n) = Inl TypeMismatch
   \<and> tp (make_double_address d) = ADDRESS_TYPE_DOUBLE
   \<and> double_value (make_double_address d) = Inr d
   \<and> int_value (make_double_address d) = Inl TypeMismatch
   \<and> (tp a = ADDRESS_TYPE_INTEGER \<longrightarrow> int_value a \<noteq> Inl TypeMismatch)
   \<and> (tp a = ADDRESS_TYPE_DOUBLE \<longrightarrow> double_value a \<noteq> Inl TypeMismatch)
   \<and> (tp a \<noteq> ADDRESS_TYPE_INTEGER \<longrightarrow> int_value a = Inl TypeMismatch)
   \<and> (tp a \<noteq> ADDRESS_TYPE_DOUBLE \<longrightarrow> double_value a = Inl TypeMismatch)"
  by (simp add: tp_def int_value_def double_value_def make_int_address_def
      make_double_address_def split: addr_value.split)

theorem addr_accessor_contract_witness:
  "tp (make_int_address 7) = ADDRESS_TYPE_INTEGER
   \<and> int_value (make_int_address 7) = Inr 7
   \<and> int_value (make_int_address 7) \<noteq> Inl TypeMismatch
   \<and> tp (make_int_address 7) \<noteq> ADDRESS_TYPE_DOUBLE
   \<and> double_value (make_int_address 7) = Inl TypeMismatch"
  using addr_accessor_contract [of 7 "Double False 1" "make_int_address 7"]
  by (simp add: tp_def make_int_address_def)

section \<open>Rendering\<close>

lemma digit_char_isdigit: "0 \<le> d \<Longrightarrow> d < 10 \<Longrightarrow> isdigit (digit_char d)"
proof -
  assume "0 \<le> d" "d < 10"
  then have "nat d < length ''0123456789''" by simp
  then have "''0123456789'' ! nat d \<in> set ''0123456789''"
    by (rule nth_mem)
  then show ?thesis
    by (simp only: digit_char_def isdigit_def)
qed

lemma show_nat_digits: "0 \<le> n \<Longrightarrow> list_all isdigit (show_nat n)"
proof (induction n rule: show_nat.induct)
  case (1 n)
  show ?case
  proof (cases "n < 10")
    case True
    then show ?thesis
      using "1.prems" by (subst show_nat.simps) (simp add: digit_char_isdigit)
  next
    case False
    then have "list_all isdigit (show_nat (n div 10))"
      using "1.IH" "1.prems" by simp
    moreover have "isdigit (digit_char (n mod 10))"
      by (rule digit_char_isdigit) simp_all
    ultimately show ?thesis
      using False by (subst show_nat.simps) simp
  qed
qed

lemma show_nat_not_Nil: "show_nat n \<noteq> []"
  by (subst show_nat.simps) simp

lemma show_int_num_chars: "list_all is_num_char (show_int n)"
proof -
  have "list_all isdigit xs \<Longrightarrow> list_all is_num_char xs" for xs
    by (induction xs) (simp_all add: is_num_char_def)
  then show ?thesis
    by (simp add: show_int_def show_nat_digits is_num_char_def)
qed

lemma print_chunks_text:
  "print_chunks cs out = Inr t \<Longrightarrow>
   \<exists>ts. list_all2 (\<lambda>c u. print_chunk c = Inr u) cs ts \<and> t = out @ concat (map (\<lambda>u. u @ '' '') ts)"
proof (induction cs arbitrary: out)
  case Nil
  then show ?case by simp
next
  case (Cons c cs)
  then obtain u where u: "print_chunk c = Inr u" and r: "print_chunks cs (out @ u @ '' '') = Inr t"
    by (auto split: sum.splits)
  from Cons.IH [OF r] obtain ts where
    "list_all2 (\<lambda>c u. print_chunk c = Inr u) cs ts" "t = (out @ u @ '' '') @ concat (map (\<lambda>u. u @ '' '') ts)"
    by blast
  then have "list_all2 (\<lambda>c u. print_chunk c = Inr u) (c # cs) (u # ts) \<and> t = out @ concat (map (\<lambda>u. u @ '' '') (u # ts))"
    using u by simp
  then show ?case by blast
qed

lemma print_block_fields:
  "print_block b =
     (if has_line_no b then print_chunks (chunks b) (''N'' @ show_int (line_no b) @ '' '')
      else print_chunks (chunks b) [])"
  by (simp add: print_block_def has_line_number_def line_number_def)

text \<open>
  Claim C10. The text of a block does not depend on its deletion flag: two blocks with
  the same line-number fields and the same chunks print the same text, and a slash in
  the text of a block, deleted or not, can only come from the text of one of its chunks.
\<close>

theorem print_block_ignores_deletion:
  "(has_line_no b1 = has_line_no b2 \<and> line_no b1 = line_no b2 \<and> chunks b1 = chunks b2
      \<longrightarrow> print_block b1 = print_block b2)
   \<and> print_block (b\<lparr>slashed_out := True\<rparr>) = print_block (b\<lparr>slashed_out := False\<rparr>)
   \<and> (print_block b = Inr t
        \<and> (\<forall>c u. c \<in> set (chunks b) \<and> print_chunk c = Inr u \<longrightarrow> CHR ''/'' \<notin> set u)
      \<longrightarrow> CHR ''/'' \<notin> set t)"
proof (intro conjI impI)
  assume "has_line_no b1 = has_line_no b2 \<and> line_no b1 = line_no b2 \<and> chunks b1 = chunks b2"
  then show "print_block b1 = print_block b2"
    by (simp add: print_block_fields)
next
  show "print_block (b\<lparr>slashed_out := True\<rparr>) = print_block (b\<lparr>slashed_out := False\<rparr>)"
    by (simp add: print_block_fields)
next
  assume a: "print_block b = Inr t
    \<and> (\<forall>c u. c \<in> set (chunks b) \<and> print_chunk c = Inr u \<longrightarrow> CHR ''/'' \<notin> set u)"
  define out where "out = (if has_line_no b then ''N'' @ show_int (line_no b) @ '' '' else [])"
  have "\<forall>x \<in> set (show_int (line_no b)). is_num_char x"
    using show_int_num_chars [of "line_no b"] by (simp add: list_all_iff)
  then have "CHR ''/'' \<notin> set (show_int (line_no b))"
    by (auto simp: is_num_char_def isdigit_def)
  then have out: "CHR ''/'' \<notin> set out"
    by (simp add: out_def)
  from a have "print_chunks (chunks b) out = Inr t"
    by (simp add: print_block_fields out_def split: if_splits)
  then obtain ts where ts: "list_all2 (\<lambda>c u. print_chunk c = Inr u) (chunks b) ts"
    and t: "t = out @ concat (map (\<lambda>u. u @ '' '') ts)"
    using print_chunks_text by blast
  have "CHR ''/'' \<notin> set u" if "u \<in> set ts" for u
  proof -
    from that obtain k where k: "k < length ts" "ts ! k = u"
      by (auto simp: in_set_conv_nth)
    then have "chunks b ! k \<in> set (chunks b)" "print_chunk (chunks b ! k) = Inr u"
      using ts by (auto simp: list_all2_conv_all_nth)
    with a show ?thesis by blast
  qed
  with out show "CHR ''/'' \<notin> set t"
    by (auto simp: t)
qed

lemma show_int_1: "show_int 1 = ''1''"
  by (simp add: show_int_def show_nat.simps digit_char_def)

theorem print_block_ignores_deletion_witness:
  "print_block (block_plain True [make_word_int (CHR ''G'') 1])
     = print_block (block_plain False [make_word_int (CHR ''G'') 1])
   \<and> print_block (block_plain True [make_word_int (CHR ''G'') 1]) = Inr ''G1 ''
   \<and> CHR ''/'' \<notin> set ''G1 ''"
  using print_block_ignores_deletion
    [of "block_plain True [make_word_int (CHR ''G'') 1]"
        "block_plain False [make_word_int (CHR ''G'') 1]"
        "block_plain True [make_word_int (CHR ''G'') 1]" "''G1 ''"]
  by (simp add: block_plain_def print_block_fields make_word_int_def print_addr_def tp_def
      make_int_address_def int_value_def show_int_1)

section \<open>Lines of white space\<close>



section \<open>The lookahead of \<^verbatim>\<open>parse_chunk\<close>\<close>

text \<open>
  Claim C7. In the default branch of \<^verbatim>\<open>parse_chunk\<close> (the current token starts
  with neither bracket and is neither the percent sign nor the semicolon) the read of
  the following token is in bounds exactly when two tokens remain, and then the branch
  is decided by that token. The source does not check it: the \<^verbatim>\<open>assert\<close> of
  \<^verbatim>\<open>parse_chunk\<close>, like those of \<^verbatim>\<open>parse_isolated_word\<close> and
  \<^verbatim>\<open>parse_word_address\<close>, is on the current token only. With one token left
  the branch is decided by what the read behind the end of the vector yields, and when
  that does not start with a digit, a point or a minus sign, a current token of one
  character is returned as an isolated word: the trailing bare letter is a parsed
  chunk, where the claim has a designed error.
\<close>

theorem lookahead_reads_past_end:
  assumes "chars_left ps" and "stream_next ps = Inr t"
    and "front t \<noteq> CHR ''[''" and "front t \<noteq> CHR ''(''" and "t \<noteq> ''%''" and "t \<noteq> '';''"
  shows "(ps_i ps + 2 \<le> length (ps_s ps) \<longrightarrow>
            remaining_plus_1 beyond ps = ps_s ps ! (ps_i ps + 1)
            \<and> parse_chunk beyond ps =
                (if \<not> is_num_char (front (ps_s ps ! (ps_i ps + 1))) then parse_isolated_word ps
                 else parse_word_address ps))
       \<and> (\<not> ps_i ps + 2 \<le> length (ps_s ps) \<longrightarrow>
            remaining_plus_1 beyond ps = beyond
            \<and> (\<not> is_num_char (front beyond) \<longrightarrow>
                  parse_chunk beyond ps = parse_isolated_word ps
                  \<and> (length t = 1 \<longrightarrow>
                        parse_chunk beyond ps = Inr (Word (front t), advance ps))))"
  using assms
  by (simp add: parse_chunk_def remaining_plus_1_def parse_isolated_word_def
      make_isolated_word_def Let_def)

theorem lookahead_reads_past_end_witness:
  "remaining_plus_1 [] (parse_stream [''G'']) = []
   \<and> parse_chunk [] (parse_stream [''G'']) = Inr (Word (CHR ''G''), advance (parse_stream [''G'']))
   \<and> parse_chunk ''X'' (parse_stream [''G'']) = Inr (Word (CHR ''G''), advance (parse_stream [''G'']))
   \<and> remaining_plus_1 [] (parse_stream [''G'', ''1'']) = ''1''
   \<and> parse_chunk [] (parse_stream [''G'', ''1'']) = parse_word_address (parse_stream [''G'', ''1''])
   \<and> parse_gcode [] ''G'' = Inr [block_plain False [Word (CHR ''G'')]]
   \<and> parse_gcode [] ''G1 X'' =
       Inr [block_plain False [make_word_int (CHR ''G'') 1, Word (CHR ''X'')]]"
proof -
  have "parse_gcode [] ''G'' = Inr [block_plain False [Word (CHR ''G'')]]"
    by (simp add: prog_eval lex_eval parse_eval)
  moreover have "parse_gcode [] ''G1 X'' =
      Inr [block_plain False [make_word_int (CHR ''G'') 1, Word (CHR ''X'')]]"
    by (simp add: prog_eval lex_eval parse_eval stoi_small make_word_int_def)
  ultimately show ?thesis
    using lookahead_reads_past_end [of "parse_stream [''G'']" "''G''" "[]"]
      lookahead_reads_past_end [of "parse_stream [''G'']" "''G''" "''X''"]
      lookahead_reads_past_end [of "parse_stream [''G'', ''1'']" "''G''" "[]"]
    by (simp add: parse_stream_def chars_left_def stream_next_def front_def is_num_char_def
        isdigit_def advance_def parse_isolated_word_def make_isolated_word_def)
qed

section \<open>Nested parenthesis comments\<close>

text \<open>
  The depth of a text between two delimiters: the openers in it minus the closers.
\<close>

definition depth_of :: "char \<Rightarrow> char \<Rightarrow> string \<Rightarrow> int" where
  "depth_of sc ec xs = int (count_list xs sc) - int (count_list xs ec)"

lemma depth_of_Cons:
  "sc \<noteq> ec \<Longrightarrow>
   depth_of sc ec (c # cs) = (if c = sc then 1 else if c = ec then - 1 else 0) + depth_of sc ec cs"
  by (simp add: depth_of_def)

lemma comment_span_depth:
  assumes "sc \<noteq> ec" and "1 \<le> d"
  shows "(\<forall>k. k < length (comment_span sc ec d xs) \<longrightarrow> 0 < d + depth_of sc ec (take k xs))
       \<and> (comment_span sc ec d xs = xs \<or> d + depth_of sc ec (comment_span sc ec d xs) = 0)"
  using assms(2)
proof (induction xs arbitrary: d)
  case Nil
  then show ?case by simp
next
  case (Cons c cs)
  let ?d = "if c = sc then d + 1 else if c = ec then d - 1 else d"
  show ?case
  proof (cases "0 < ?d")
    case True
    then have ih: "(\<forall>k. k < length (comment_span sc ec ?d cs) \<longrightarrow> 0 < ?d + depth_of sc ec (take k cs))
       \<and> (comment_span sc ec ?d cs = cs \<or> ?d + depth_of sc ec (comment_span sc ec ?d cs) = 0)"
      by (intro Cons.IH) simp
    have sp: "comment_span sc ec d (c # cs) = c # comment_span sc ec ?d cs"
      using True by (simp add: Let_def)
    have "0 < d + depth_of sc ec (take k (c # cs))" if "k < length (comment_span sc ec d (c # cs))" for k
    proof (cases k)
      case 0
      then show ?thesis using Cons.prems by (simp add: depth_of_def)
    next
      case (Suc j)
      then have "j < length (comment_span sc ec ?d cs)"
        using that sp by simp
      then have "0 < ?d + depth_of sc ec (take j cs)"
        using ih by blast
      then show ?thesis
        using Suc assms(1) by (simp add: depth_of_Cons split: if_splits)
    qed
    moreover have "comment_span sc ec d (c # cs) = c # cs
        \<or> d + depth_of sc ec (comment_span sc ec d (c # cs)) = 0"
      using ih sp assms(1) by (auto simp add: depth_of_Cons split: if_splits)
    ultimately show ?thesis by blast
  next
    case False
    then have sp: "comment_span sc ec d (c # cs) = [c]"
      by (simp add: Let_def)
    from False Cons.prems have "c = ec" "d = 1" "c \<noteq> sc"
      by (auto split: if_splits)
    then show ?thesis
      using sp Cons.prems assms(1) by (auto simp: depth_of_def less_Suc_eq_0_disj)
  qed
qed

lemma comment_span_open:
  "comment_span sc ec 0 (sc # cs) = sc # comment_span sc ec 1 cs"
  by (simp add: Let_def)

lemma comment_token_shape:
  assumes "sc \<noteq> ec" and "rest = sc # cs" and "tok = comment_span sc ec 0 rest"
  shows "take (length tok) rest = tok \<and> front tok = sc
     \<and> (\<forall>k. 0 < k \<and> k < length tok \<longrightarrow> 0 < depth_of sc ec (take k tok))
     \<and> (depth_of sc ec tok = 0 \<or> tok = rest)"
proof -
  define u where "u = comment_span sc ec 1 cs"
  have tok: "tok = sc # u"
    using assms(2,3) by (simp add: comment_span_open u_def)
  have pre: "take (length u) cs = u"
    unfolding u_def by (rule comment_span_prefix)
  have d: "(\<forall>k. k < length u \<longrightarrow> 0 < 1 + depth_of sc ec (take k cs))
       \<and> (u = cs \<or> 1 + depth_of sc ec u = 0)"
    unfolding u_def by (rule comment_span_depth [OF assms(1)]) simp
  have pos: "0 < depth_of sc ec (take k tok)" if "0 < k" "k < length tok" for k
  proof -
    from that obtain j where j: "k = Suc j" "j < length u"
      using tok by (cases k) auto
    have "take j u = take j (take (length u) cs)"
      by (simp only: pre)
    also have "\<dots> = take j cs"
      using j(2) by (simp add: min_def)
    finally have "depth_of sc ec (take k tok) = 1 + depth_of sc ec (take j cs)"
      using assms(1) by (simp add: tok j(1) depth_of_Cons)
    moreover have "0 < 1 + depth_of sc ec (take j cs)"
      using d j(2) by blast
    ultimately show ?thesis by simp
  qed
  have "depth_of sc ec tok = 1 + depth_of sc ec u"
    using assms(1) by (simp add: tok depth_of_Cons)
  moreover have "u = cs \<or> 1 + depth_of sc ec u = 0"
    using d by blast
  ultimately have fin: "depth_of sc ec tok = 0 \<or> tok = rest"
    using assms(2) tok by auto
  have "take (length tok) rest = tok"
    using pre by (simp add: tok assms(2))
  moreover have "front tok = sc"
    by (simp add: tok front_def)
  ultimately show ?thesis
    using pos fin by blast
qed

lemma lex_token_comment:
  assumes "ps_i ps < length (ps_s ps)" and "ps_s ps ! ps_i ps = CHR ''(''"
  shows "lex_token ps =
     Inr (comment_span (CHR ''('') (CHR '')'') 0 (drop (ps_i ps) (ps_s ps)),
          ps\<lparr>ps_i := ps_i ps + length (comment_span (CHR ''('') (CHR '')'') 0 (drop (ps_i ps) (ps_s ps)))\<rparr>)"
  using assms
  by (simp add: lex_token_def chars_left_def stream_next_def is_num_char_def isdigit_def
      parse_comment_with_delimiters_def comment_loop_eq)

lemma mod_wrap_minus: "b \<le> a \<Longrightarrow> a < M \<Longrightarrow> (a + M - b) mod M = a - (b::nat)"
proof -
  assume "b \<le> a" "a < M"
  then have "a + M - b = (a - b) + M" by simp
  then have "(a + M - b) mod M = (a - b) mod M" by simp
  also have "\<dots> = a - b" using \<open>a < M\<close> by simp
  finally show ?thesis .
qed

lemma size_t_minus_le: "b \<le> a \<Longrightarrow> a < 2 ^ 64 \<Longrightarrow> size_t_minus a b = a - b"
  unfolding size_t_minus_def by (rule mod_wrap_minus)

lemma substr_strip:
  assumes "t \<noteq> []" and "length t < 2 ^ 64"
  shows "substr t (Suc 0) (size_t_minus (length t) 2) = Inr (butlast (tl t))"
proof (cases "length t = 1")
  case True
  then obtain c where "t = [c]"
    by (cases t) auto
  then show ?thesis
    by (simp add: substr_def)
next
  case False
  with assms(1) have n: "2 \<le> length t"
    by (cases t) (auto simp: Suc_le_eq)
  have "size_t_minus (length t) 2 = length t - 2"
    using n assms(2) by (rule size_t_minus_le)
  moreover have "take (length t - 2) (drop (Suc 0) t) = butlast (tl t)"
    using n by (cases t) (simp_all add: butlast_conv_take)
  moreover have "\<not> length t < Suc 0"
    using n by linarith
  ultimately show ?thesis
    by (simp only: substr_def if_False)
qed

lemma parse_chunk_paren:
  assumes "chars_left ts" and "stream_next ts = Inr t" and "front t = CHR ''(''"
    and "length t < 2 ^ 64"
  shows "parse_chunk beyond ts = Inr (Comment (CHR ''('') (CHR '')'') (butlast (tl t)), advance ts)"
proof -
  from assms(3) have "t \<noteq> []"
    by (auto simp: front_def)
  then have "substr t (Suc 0) (size_t_minus (length t) 2) = Inr (butlast (tl t))"
    using assms(4) by (rule substr_strip)
  then show ?thesis
    using assms(1-3) by (simp add: parse_chunk_def)
qed

lemma lex_nested: "lex_block ''(outer (inner) end)'' = Inr [''(outer (inner) end)'']"
  by (simp add: lex_eval)

lemma parse_nested:
  "parse_tokens beyond [''(outer (inner) end)''] =
     Inr (block_plain False [Comment (CHR ''('') (CHR '')'') ''outer (inner) end''])"
  by (simp add: parse_eval)

text \<open>
  Claim C4. At an opening parenthesis \<^verbatim>\<open>lex_token\<close> returns one token, a prefix of
  the rest of the line that starts with the parenthesis: the depth counted from 0 stays
  positive inside it, and the token ends where the depth is back at 0 or, when it never
  is, at the end of the line. \<^verbatim>\<open>parse_chunk\<close> turns such a token into one comment
  chunk with the delimiters \<^verbatim>\<open>(\<close> and \<^verbatim>\<open>)\<close> and the token without its first and
  its last character as text. The line \<^verbatim>\<open>(outer (inner) end)\<close> is one token, and one
  comment chunk with the text \<^verbatim>\<open>outer (inner) end\<close>.
\<close>

theorem nested_comment_token:
  "(ps_i ps < length (ps_s ps) \<and> ps_s ps ! ps_i ps = CHR ''('' \<and> rest = drop (ps_i ps) (ps_s ps)
      \<and> tok = comment_span (CHR ''('') (CHR '')'') 0 rest \<longrightarrow>
      lex_token ps = Inr (tok, ps\<lparr>ps_i := ps_i ps + length tok\<rparr>)
      \<and> take (length tok) rest = tok
      \<and> front tok = CHR ''(''
      \<and> (\<forall>k. 0 < k \<and> k < length tok \<longrightarrow> 0 < depth_of (CHR ''('') (CHR '')'') (take k tok))
      \<and> (depth_of (CHR ''('') (CHR '')'') tok = 0 \<or> tok = rest))
   \<and> (chars_left ts \<and> stream_next ts = Inr t \<and> front t = CHR ''('' \<and> length t < 2 ^ 64 \<longrightarrow>
      parse_chunk beyond ts = Inr (Comment (CHR ''('') (CHR '')'') (butlast (tl t)), advance ts))
   \<and> lex_block ''(outer (inner) end)'' = Inr [''(outer (inner) end)'']
   \<and> parse_gcode beyond ''(outer (inner) end)'' =
       Inr [block_plain False [Comment (CHR ''('') (CHR '')'') ''outer (inner) end'']]"
proof (intro conjI impI)
  assume a: "ps_i ps < length (ps_s ps) \<and> ps_s ps ! ps_i ps = CHR ''('' \<and> rest = drop (ps_i ps) (ps_s ps)
      \<and> tok = comment_span (CHR ''('') (CHR '')'') 0 rest"
  then have r: "rest = CHR ''('' # drop (Suc (ps_i ps)) (ps_s ps)"
    by (simp add: Cons_nth_drop_Suc [symmetric])
  have sh: "take (length tok) rest = tok \<and> front tok = CHR ''(''
     \<and> (\<forall>k. 0 < k \<and> k < length tok \<longrightarrow> 0 < depth_of (CHR ''('') (CHR '')'') (take k tok))
     \<and> (depth_of (CHR ''('') (CHR '')'') tok = 0 \<or> tok = rest)"
    using a by (intro comment_token_shape [OF _ r]) simp_all
  show "lex_token ps = Inr (tok, ps\<lparr>ps_i := ps_i ps + length tok\<rparr>)"
    using a by (simp add: lex_token_comment)
  show "take (length tok) rest = tok" using sh by blast
  show "front tok = CHR ''(''" using sh by blast
  show "\<forall>k. 0 < k \<and> k < length tok \<longrightarrow> 0 < depth_of (CHR ''('') (CHR '')'') (take k tok)"
    using sh by blast
  show "depth_of (CHR ''('') (CHR '')'') tok = 0 \<or> tok = rest" using sh by blast
next
  assume "chars_left ts \<and> stream_next ts = Inr t \<and> front t = CHR ''('' \<and> length t < 2 ^ 64"
  then show "parse_chunk beyond ts = Inr (Comment (CHR ''('') (CHR '')'') (butlast (tl t)), advance ts)"
    using parse_chunk_paren [of ts t] by blast
next
  show "lex_block ''(outer (inner) end)'' = Inr [''(outer (inner) end)'']"
    by (rule lex_nested)
  show "parse_gcode beyond ''(outer (inner) end)'' =
       Inr [block_plain False [Comment (CHR ''('') (CHR '')'') ''outer (inner) end'']]"
    by (simp add: prog_eval lex_nested parse_nested)
qed


theorem nested_comment_token_witness:
  "\<forall>beyond.
     lex_token \<lparr>ps_i = 1, ps_s = ''G(a(b)c)X''\<rparr> = Inr (''(a(b)c)'', \<lparr>ps_i = 8, ps_s = ''G(a(b)c)X''\<rparr>)
   \<and> depth_of (CHR ''('') (CHR '')'') ''(a(b)c)'' = 0
   \<and> parse_chunk beyond (parse_stream [''(a(b)c)'']) =
       Inr (Comment (CHR ''('') (CHR '')'') ''a(b)c'', \<lparr>ps_i = 1, ps_s = [''(a(b)c)'']\<rparr>)"
  using nested_comment_token
    [of "\<lparr>ps_i = 1, ps_s = ''G(a(b)c)X''\<rparr>" "''(a(b)c)X''" "''(a(b)c)''"
        "parse_stream [''(a(b)c)'']" "''(a(b)c)''"]
  by (simp add: parse_stream_def chars_left_def stream_next_def front_def advance_def Let_def
      depth_of_def)

section \<open>Lines and blocks\<close>

text \<open>
  The lines of a text are the pieces between its newlines, \<open>nonblank\<close> keeps those of
  nonzero length, and \<open>parse_lines\<close> lexes and parses lines one after the other, stopping
  at the first failure.
\<close>

fun split_lines :: "string \<Rightarrow> string list" where
  "split_lines [] = [[]]"
| "split_lines (c # cs) =
     (if c = CHR 0x0A then [] # split_lines cs
      else (case split_lines cs of [] \<Rightarrow> [[c]] | l # ls \<Rightarrow> (c # l) # ls))"

definition parse_line :: "string \<Rightarrow> string \<Rightarrow> error + block" where
  "parse_line beyond l = (case lex_block l of Inl e \<Rightarrow> Inl e | Inr toks \<Rightarrow> parse_tokens beyond toks)"

fun parse_lines :: "string \<Rightarrow> string list \<Rightarrow> block list \<Rightarrow> error + block list" where
  "parse_lines beyond [] acc = Inr acc"
| "parse_lines beyond (l # ls) acc =
     (case parse_line beyond l of Inl e \<Rightarrow> Inl e | Inr b \<Rightarrow> parse_lines beyond ls (acc @ [b]))"

definition nonblank :: "string list \<Rightarrow> string list" where
  "nonblank ls = filter (\<lambda>l. l \<noteq> []) ls"

lemma split_lines_unfold:
  "split_lines xs =
     takeWhile (\<lambda>c. c \<noteq> CHR 0x0A) xs
     # (case dropWhile (\<lambda>c. c \<noteq> CHR 0x0A) xs of [] \<Rightarrow> [] | c # r \<Rightarrow> split_lines r)"
proof (induction xs)
  case Nil
  then show ?case by simp
next
  case (Cons c cs)
  then show ?case
    by (cases "c = CHR 0x0A") simp_all
qed

lemma nonblank_split_lines:
  assumes "xs \<noteq> []"
  shows "nonblank (split_lines xs) =
     (if takeWhile (\<lambda>c. c \<noteq> CHR 0x0A) xs = [] then [] else [takeWhile (\<lambda>c. c \<noteq> CHR 0x0A) xs])
     @ nonblank (split_lines (drop (Suc (length (takeWhile (\<lambda>c. c \<noteq> CHR 0x0A) xs))) xs))"
proof -
  let ?P = "\<lambda>c. c \<noteq> CHR 0x0A"
  have dr: "drop (Suc (length (takeWhile ?P xs))) xs = tl (dropWhile ?P xs)"
    by (simp add: dropWhile_eq_drop drop_Suc tl_drop)
  have un: "split_lines xs =
     takeWhile ?P xs # (case dropWhile ?P xs of [] \<Rightarrow> [] | c # r \<Rightarrow> split_lines r)"
    by (rule split_lines_unfold)
  show ?thesis
  proof (cases "dropWhile ?P xs")
    case Nil
    have "split_lines xs = [takeWhile ?P xs]"
      by (subst un) (simp only: Nil list.case)
    moreover have "split_lines (drop (Suc (length (takeWhile ?P xs))) xs) = [[]]"
      by (simp only: dr Nil list.sel split_lines.simps)
    ultimately show ?thesis
      by (simp add: nonblank_def)
  next
    case (Cons c r)
    have "split_lines xs = takeWhile ?P xs # split_lines r"
      by (subst un) (simp only: Cons list.case)
    moreover have "split_lines (drop (Suc (length (takeWhile ?P xs))) xs) = split_lines r"
      by (simp only: dr Cons list.sel)
    ultimately show ?thesis
      by (simp add: nonblank_def)
  qed
qed

lemma lex_gprog_loop_lines:
  "lex_gprog_loop beyond str acc k = parse_lines beyond (nonblank (split_lines (drop k str))) acc"
proof (induction beyond str acc k rule: lex_gprog_loop.induct)
  case (1 beyond str acc k)
  let ?P = "\<lambda>c. c \<noteq> CHR 0x0A"
  let ?line = "takeWhile ?P (drop k str)"
  show ?case
  proof (cases "k < length str")
    case False
    then show ?thesis
      by (subst lex_gprog_loop.simps) (simp add: nonblank_def)
  next
    case True
    then have ne: "drop k str \<noteq> []"
      by simp
    have nb: "nonblank (split_lines (drop k str)) =
        (if ?line = [] then [] else [?line])
        @ nonblank (split_lines (drop (k + length ?line + 1) str))"
      using nonblank_split_lines [OF ne] by (simp add: add.commute)
    show ?thesis
    proof (cases "?line = []")
      case lineNil: True
      then have "lex_gprog_loop beyond str acc (k + length ?line + 1) =
          parse_lines beyond (nonblank (split_lines (drop (k + length ?line + 1) str))) acc"
        using True by (intro "1.IH"(2)) simp_all
      then show ?thesis
        using True lineNil by (subst lex_gprog_loop.simps, subst nb) (simp add: Let_def)
    next
      case lineCons: False
      show ?thesis
      proof (cases "parse_line beyond ?line")
        case (Inl e)
        then show ?thesis
          using True lineCons
          by (subst lex_gprog_loop.simps, subst nb)
             (auto simp add: Let_def parse_line_def split: sum.splits)
      next
        case (Inr b)
        then obtain toks where t: "lex_block ?line = Inr toks" "parse_tokens beyond toks = Inr b"
          by (auto simp: parse_line_def split: sum.splits)
        have "lex_gprog_loop beyond str (acc @ [b]) (k + length ?line + 1) =
            parse_lines beyond (nonblank (split_lines (drop (k + length ?line + 1) str))) (acc @ [b])"
          using True lineCons t by (intro "1.IH"(1)) simp_all
        then show ?thesis
          using True lineCons t Inr
          by (subst lex_gprog_loop.simps, subst nb) (simp add: Let_def)
      qed
    qed
  qed
qed

lemma parse_lines_Inr:
  "parse_lines beyond ls acc = Inr bs \<Longrightarrow>
   length bs = length acc + length ls
   \<and> (\<forall>k < length acc. bs ! k = acc ! k)
   \<and> (\<forall>k < length ls. parse_line beyond (ls ! k) = Inr (bs ! (length acc + k)))"
proof (induction ls arbitrary: acc)
  case Nil
  then show ?case by simp
next
  case (Cons l ls)
  then obtain b where b: "parse_line beyond l = Inr b" and r: "parse_lines beyond ls (acc @ [b]) = Inr bs"
    by (auto split: sum.splits)
  from Cons.IH [OF r] have ih: "length bs = length (acc @ [b]) + length ls"
    "\<forall>k < length (acc @ [b]). bs ! k = (acc @ [b]) ! k"
    "\<forall>k < length ls. parse_line beyond (ls ! k) = Inr (bs ! (length (acc @ [b]) + k))"
    by blast+
  have "bs ! k = acc ! k" if "k < length acc" for k
    using ih(2) that by (auto simp: nth_append)
  moreover have "parse_line beyond ((l # ls) ! k) = Inr (bs ! (length acc + k))" if "k < length (l # ls)" for k
  proof (cases k)
    case 0
    then show ?thesis
      using ih(2) b by (auto simp: nth_append)
  next
    case (Suc j)
    then show ?thesis
      using ih(3) that by auto
  qed
  ultimately show ?case
    using ih(1) by simp
qed

text \<open>
  Claim C5. \<^verbatim>\<open>parse_gcode\<close> is \<open>parse_lines\<close> on the lines of nonzero length: when it
  returns a program, the program has one block for each such line, in the order of the
  lines, and none for a line of length 0.
\<close>

theorem blank_lines_skipped:
  "parse_gcode beyond text = parse_lines beyond (nonblank (split_lines text)) []
   \<and> (parse_gcode beyond text = Inr bs \<longrightarrow>
        length bs = length (nonblank (split_lines text))
        \<and> (\<forall>k < length bs. parse_line beyond (nonblank (split_lines text) ! k) = Inr (bs ! k)))
   \<and> length (nonblank (split_lines text)) + length (filter (\<lambda>l. l = []) (split_lines text))
       = length (split_lines text)"
proof (intro conjI impI)
  show eq: "parse_gcode beyond text = parse_lines beyond (nonblank (split_lines text)) []"
    by (simp add: parse_gcode_def lex_gprog_def lex_gprog_loop_lines)
  show "length (nonblank (split_lines text)) + length (filter (\<lambda>l. l = []) (split_lines text))
       = length (split_lines text)"
    using sum_length_filter_compl [of "\<lambda>l. l \<noteq> []" "split_lines text"]
    by (simp add: nonblank_def)
  assume "parse_gcode beyond text = Inr bs"
  then have "parse_lines beyond (nonblank (split_lines text)) [] = Inr bs"
    using eq by simp
  from parse_lines_Inr [OF this]
  show "length bs = length (nonblank (split_lines text))"
    and "\<forall>k < length bs. parse_line beyond (nonblank (split_lines text) ! k) = Inr (bs ! k)"
    by simp_all
qed

lemma lex_G1: "lex_block ''G1'' = Inr [''G'', ''1'']"
  by (simp add: lex_eval)

lemma lex_percent: "lex_block ''%'' = Inr [''%'']"
  by (simp add: lex_eval)

lemma parse_G1: "parse_tokens beyond [''G'', ''1''] = Inr (block_plain False [make_word_int (CHR ''G'') 1])"
  by (simp add: parse_eval stoi_small make_word_int_def)

lemma parse_percent: "parse_tokens beyond [''%''] = Inr (block_plain False [Percent])"
  by (simp add: parse_eval)

theorem blank_lines_skipped_witness:
  "\<forall>beyond.
     parse_gcode beyond [CHR ''G'', CHR ''1'', CHR 0x0A, CHR 0x0A, CHR ''%'', CHR 0x0A]
     = Inr [block_plain False [make_word_int (CHR ''G'') 1], block_plain False [Percent]]
   \<and> nonblank (split_lines [CHR ''G'', CHR ''1'', CHR 0x0A, CHR 0x0A, CHR ''%'', CHR 0x0A])
       = [''G1'', ''%'']
   \<and> length [block_plain False [make_word_int (CHR ''G'') 1], block_plain False [Percent]]
       = length (nonblank (split_lines [CHR ''G'', CHR ''1'', CHR 0x0A, CHR 0x0A, CHR ''%'', CHR 0x0A]))"
  using blank_lines_skipped
    [of _ "[CHR ''G'', CHR ''1'', CHR 0x0A, CHR 0x0A, CHR ''%'', CHR 0x0A]"
        "[block_plain False [make_word_int (CHR ''G'') 1], block_plain False [Percent]]"]
  by (simp add: nonblank_def parse_line_def lex_G1 lex_percent parse_G1 parse_percent)

section \<open>Rendering and parsing again\<close>

lemma lex_deleted: "lex_block ''/G1'' = Inr [''/'', ''G'', ''1'']"
  by (simp add: lex_eval)

lemma parse_deleted:
  "parse_tokens beyond [''/'', ''G'', ''1''] = Inr (block_plain True [make_word_int (CHR ''G'') 1])"
  by (simp add: parse_eval stoi_small make_word_int_def block_plain_def)

lemma lex_rendered: "lex_block ''G1 '' = Inr [''G'', ''1'']"
  by (simp add: lex_eval)

text \<open>
  Claim C1, as stated, fails. The text \<^verbatim>\<open>/G1\<close> has no semicolon. Its parse is one
  deleted block, the rendering of that block has no slash, and the parse of the rendering
  is a block that is not deleted.
\<close>

theorem render_reparse_counterexample:
  "\<forall>beyond.
     CHR '';'' \<notin> set ''/G1''
   \<and> parse_gcode beyond ''/G1'' = Inr [block_plain True [make_word_int (CHR ''G'') 1]]
   \<and> print_program [block_plain True [make_word_int (CHR ''G'') 1]] []
       = Inr [CHR ''G'', CHR ''1'', CHR '' '', CHR 0x0A]
   \<and> parse_gcode beyond [CHR ''G'', CHR ''1'', CHR '' '', CHR 0x0A]
       = Inr [block_plain False [make_word_int (CHR ''G'') 1]]
   \<and> is_deleted (block_plain True [make_word_int (CHR ''G'') 1])
   \<and> \<not> is_deleted (block_plain False [make_word_int (CHR ''G'') 1])"
  by (simp add: prog_eval lex_deleted parse_deleted lex_rendered parse_G1 print_block_fields
      block_plain_def make_word_int_def print_addr_def tp_def make_int_address_def
      int_value_def show_int_1 is_deleted_def)

text \<open>
  The token \<^verbatim>\<open>lex_token\<close> returns, as a function of the characters from the cursor on.
\<close>

definition lex_tok_list :: "string \<Rightarrow> error + string" where
  "lex_tok_list xs =
     (case xs of
        [] \<Rightarrow> Inl AssertionFailed
      | c # r \<Rightarrow>
          if is_num_char c then Inr (takeWhile is_num_char xs)
          else if c = CHR ''('' then Inr (comment_span (CHR ''('') (CHR '')'') 0 xs)
          else if c = CHR ''['' then Inr (comment_span (CHR ''['') (CHR '']'') 0 xs)
          else if c = CHR '')'' then Inl LexError
          else if c = CHR '']'' then Inl LexError
          else Inr [c])"

lemma lex_token_drop:
  "lex_token ps =
     (case lex_tok_list (drop (ps_i ps) (ps_s ps)) of
        Inl e \<Rightarrow> Inl e
      | Inr tok \<Rightarrow> Inr (tok, ps\<lparr>ps_i := ps_i ps + length tok\<rparr>))"
proof (cases "ps_i ps < length (ps_s ps)")
  case False
  then show ?thesis
    by (simp add: lex_token_def chars_left_def lex_tok_list_def)
next
  case True
  then have d: "drop (ps_i ps) (ps_s ps) = ps_s ps ! ps_i ps # drop (Suc (ps_i ps)) (ps_s ps)"
    by (simp add: Cons_nth_drop_Suc)
  show ?thesis
    using True
    by (simp add: lex_token_def chars_left_def stream_next_def lex_tok_list_def
        digit_string_def digit_string_loop_eq parse_comment_with_delimiters_def
        comment_loop_eq advance_def)
       (simp add: d)
qed

definition white :: "char \<Rightarrow> bool" where
  "white c = (isspace c \<or> c = CHR 0x0D)"

lemma lex_block_loop_end:
  assumes "list_all white (drop (ps_i ps) (ps_s ps))"
  shows "lex_block_loop acc ps = Inr acc"
proof (cases "chars_left ps")
  case False
  then show ?thesis
    by (subst lex_block_loop.simps) simp
next
  case True
  have tw: "takeWhile (\<lambda>c. isspace c \<or> c = CHR 0x0D) (drop (ps_i ps) (ps_s ps)) = drop (ps_i ps) (ps_s ps)"
    using assms by (simp add: takeWhile_eq_all_conv list_all_iff white_def)
  have e: "\<not> chars_left (ignore_whitespace ps)"
    using True by (simp add: ignore_whitespace_eq tw chars_left_def)
  have "lex_block_loop acc ps = lex_block_loop acc (ignore_whitespace ps)"
    using True e by (subst lex_block_loop.simps) (simp add: Let_def)
  also have "\<dots> = Inr acc"
    using e by (subst lex_block_loop.simps) simp
  finally show ?thesis .
qed

lemma lex_block_loop_step:
  assumes d: "drop (ps_i ps) (ps_s ps) = w @ tok @ rest"
    and w: "list_all white w"
    and tok: "tok \<noteq> []" "\<not> white (hd tok)"
    and lx: "lex_tok_list (tok @ rest) = Inr tok"
  shows "lex_block_loop acc ps =
     lex_block_loop (acc @ [tok]) (ps\<lparr>ps_i := ps_i ps + length w + length tok\<rparr>)"
proof -
  have cl: "chars_left ps"
    using d tok by (cases "ps_i ps < length (ps_s ps)") (auto simp: chars_left_def)
  have tw: "takeWhile (\<lambda>c. isspace c \<or> c = CHR 0x0D) (w @ tok @ rest) = w"
    using w tok by (cases tok) (auto simp: takeWhile_append2 list_all_iff white_def takeWhile_eq_all_conv)
  define ps1 where "ps1 = ps\<lparr>ps_i := ps_i ps + length w\<rparr>"
  have iw: "ignore_whitespace ps = ps1"
    by (simp add: ignore_whitespace_eq d tw ps1_def)
  have d1: "drop (ps_i ps1) (ps_s ps1) = tok @ rest"
    using d by (simp add: ps1_def add.commute [of "ps_i ps"] drop_drop [symmetric])
  have cl1: "chars_left ps1"
    using d1 tok by (cases "ps_i ps1 < length (ps_s ps1)") (auto simp: chars_left_def)
  have lt: "lex_token ps1 = Inr (tok, ps\<lparr>ps_i := ps_i ps + length w + length tok\<rparr>)"
    by (simp add: lex_token_drop d1 lx) (simp add: ps1_def)
  show ?thesis
    using cl cl1 by (subst lex_block_loop.simps) (simp add: Let_def iw lt)
qed


text \<open>
  \<open>closes sc ec d xs\<close>: the comment scan started at depth \<open>d\<close> brings the depth back to
  0 at the last character of \<open>xs\<close> and not before. \<open>word_char\<close> are the characters that
  lex as a token of their own and are not a marker of \<^verbatim>\<open>parse_chunk\<close>; \<open>num_text\<close> are
  the nonempty texts of digits, points and minus signs.
\<close>

fun closes :: "char \<Rightarrow> char \<Rightarrow> int \<Rightarrow> string \<Rightarrow> bool" where
  "closes sc ec d [] = False"
| "closes sc ec d (c # cs) =
     (let d' = (if c = sc then d + 1 else if c = ec then d - 1 else d)
      in if 0 < d' then closes sc ec d' cs else cs = [])"

lemma closes_span: "closes sc ec d xs \<Longrightarrow> comment_span sc ec d (xs @ ys) = xs"
  by (induction xs arbitrary: d) (auto simp: Let_def split: if_splits)

definition word_char :: "char \<Rightarrow> bool" where
  "word_char c = (\<not> white c \<and> c \<notin> set ''()[]%;'')"

definition num_text :: "string \<Rightarrow> bool" where
  "num_text t = (t \<noteq> [] \<and> list_all is_num_char t)"

text \<open>The tokens and the text that \<^verbatim>\<open>print\<close> gives a chunk.\<close>

definition addr_text :: "addr \<Rightarrow> string" where
  "addr_text a = (case val a of Dbl_val d \<Rightarrow> show_double d | Int_val n \<Rightarrow> show_int n)"

fun chunk_tokens :: "chunk \<Rightarrow> string list" where
  "chunk_tokens (Comment l r t) = [l # t @ [r]]"
| "chunk_tokens (WordAddress c a) = [[c], addr_text a]"
| "chunk_tokens Percent = [''%'']"
| "chunk_tokens (Word c) = [[c]]"

definition chunk_text :: "chunk \<Rightarrow> string" where
  "chunk_text c = concat (chunk_tokens c)"

definition chunks_text :: "chunk list \<Rightarrow> string" where
  "chunks_text cs = concat (map (\<lambda>c. chunk_text c @ '' '') cs)"

fun first_char :: "chunk \<Rightarrow> char" where
  "first_char (Comment l r t) = l"
| "first_char (WordAddress c a) = c"
| "first_char Percent = CHR ''%''"
| "first_char (Word c) = c"

text \<open>
  The chunks that survive rendering and parsing again. A word address has a letter of the
  set of its type, an integer in the range of \<^verbatim>\<open>int\<close>, or a double whose text is plain
  decimal and reads back as the same double. A comment has one of the two bracket pairs
  as delimiters and a text that closes them, with no newline. An isolated word is a
  \<open>word_char\<close> in front of a chunk that does not start like a number.
\<close>

definition stable_addr :: "char \<Rightarrow> addr \<Rightarrow> bool" where
  "stable_addr c a =
     (case val a of
        Dbl_val d \<Rightarrow>
          ad_type a = ADDRESS_TYPE_DOUBLE \<and> c \<in> set double_letters
          \<and> num_text (show_double d) \<and> stod (show_double d) = Inr d
      | Int_val n \<Rightarrow>
          ad_type a = ADDRESS_TYPE_INTEGER \<and> c \<in> set int_letters
          \<and> - (2 ^ 31) \<le> n \<and> n \<le> 2 ^ 31 - 1)"

fun stable_chunks :: "chunk list \<Rightarrow> bool" where
  "stable_chunks [] = True"
| "stable_chunks (Comment l r t # cs) =
     ((l = CHR ''('' \<and> r = CHR '')'' \<or> l = CHR ''['' \<and> r = CHR '']'')
      \<and> closes l r 0 (l # t @ [r]) \<and> CHR 0x0A \<notin> set t \<and> length t + 2 < 2 ^ 64
      \<and> stable_chunks cs)"
| "stable_chunks (WordAddress c a # cs) = (stable_addr c a \<and> stable_chunks cs)"
| "stable_chunks (Percent # cs) = stable_chunks cs"
| "stable_chunks (Word c # cs) =
     (word_char c \<and> cs \<noteq> [] \<and> \<not> is_num_char (first_char (hd cs)) \<and> stable_chunks cs)"

lemma white_simps:
  "white (CHR '' '')" "\<not> white (CHR ''('')" "\<not> white (CHR ''['')" "\<not> white (CHR ''%'')"
  "\<not> white (CHR ''N'')"
  by (simp_all add: white_def isspace_def)

lemma num_char_not_white: "is_num_char c \<Longrightarrow> \<not> white c"
  by (auto simp: is_num_char_def isdigit_def white_def isspace_def)

lemma letter_plain:
  assumes "c \<in> set double_letters \<or> c \<in> set int_letters"
  shows "\<not> white c \<and> \<not> is_num_char c \<and> c \<notin> set ''()[]%;/'' \<and> c \<noteq> CHR 0x0A"
  using assms
  by (auto simp: double_letters_def int_letters_def white_def isspace_def is_num_char_def
      isdigit_def)

lemma lex_tok_single:
  assumes "word_char c" and "is_num_char c \<longrightarrow> rest = [] \<or> \<not> is_num_char (hd rest)"
  shows "lex_tok_list ([c] @ rest) = Inr [c]"
proof (cases "is_num_char c")
  case True
  with assms(2) have "takeWhile is_num_char rest = []"
    by (cases rest) auto
  then show ?thesis
    using True by (simp add: lex_tok_list_def)
next
  case False
  then show ?thesis
    using assms(1) by (auto simp: lex_tok_list_def word_char_def)
qed

lemma lex_tok_num:
  assumes "num_text t" and "rest = [] \<or> \<not> is_num_char (hd rest)"
  shows "lex_tok_list (t @ rest) = Inr t"
proof -
  from assms(1) obtain c r where t: "t = c # r" and c: "is_num_char c"
    by (cases t) (auto simp: num_text_def)
  have "takeWhile is_num_char (t @ rest) = t"
    using assms by (cases rest) (auto simp: num_text_def list_all_iff takeWhile_append2)
  then show ?thesis
    using c by (simp add: lex_tok_list_def t)
qed

lemma lex_tok_comment:
  assumes "l = CHR ''('' \<and> r = CHR '')'' \<or> l = CHR ''['' \<and> r = CHR '']''"
    and "closes l r 0 (l # t @ [r])"
  shows "lex_tok_list ((l # t @ [r]) @ rest) = Inr (l # t @ [r])"
proof -
  have "comment_span l r 0 ((l # t @ [r]) @ rest) = l # t @ [r]"
    using assms(2) by (rule closes_span)
  then show ?thesis
    using assms(1) by (auto simp: lex_tok_list_def is_num_char_def isdigit_def)
qed

lemma chunks_text_Cons: "chunks_text (c # cs) = chunk_text c @ '' '' @ chunks_text cs"
  by (simp add: chunks_text_def)

lemma drop_add_stream:
  "drop (ps_i ps) (ps_s ps) = xs @ ys \<Longrightarrow>
   drop (ps_i (ps\<lparr>ps_i := ps_i ps + length xs\<rparr>)) (ps_s (ps\<lparr>ps_i := ps_i ps + length xs\<rparr>)) = ys"
  by (simp add: add.commute [of "ps_i ps"] drop_drop [symmetric])

lemma drop_shift2:
  "drop i s = w @ tok @ rest \<Longrightarrow> drop (i + length w + length tok) s = rest"
proof -
  assume a: "drop i s = w @ tok @ rest"
  have "drop (i + length w + length tok) s = drop (length (w @ tok)) (drop i s)"
    by (simp add: add.commute add.left_commute)
  also have "\<dots> = rest"
    by (simp only: a append_assoc [symmetric] append_eq_conv_conj [THEN iffD1] drop_append length_append)
       simp
  finally show ?thesis .
qed

lemma lex_chunks:
  assumes "stable_chunks cs"
    and "drop (ps_i ps) (ps_s ps) = w @ chunks_text cs" and "list_all white w"
  shows "lex_block_loop acc ps = Inr (acc @ concat (map chunk_tokens cs))"
  using assms
proof (induction cs arbitrary: acc ps w)
  case Nil
  then show ?case
    by (simp add: lex_block_loop_end chunks_text_def)
next
  case (Cons c cs)
  let ?rest = "'' '' @ chunks_text cs"
  have next_ih: "lex_block_loop acc' ps' = Inr (acc' @ concat (map chunk_tokens cs))"
    if "stable_chunks cs" "drop (ps_i ps') (ps_s ps') = ?rest" for acc' ps'
    using Cons.IH [of ps' "'' ''" acc'] that by (simp add: white_simps)
  have st: "stable_chunks cs"
    using Cons.prems(1) by (cases c) simp_all
  show ?case
  proof (cases c)
    case (Comment l r t)
    let ?tok = "l # t @ [r]"
    have d: "drop (ps_i ps) (ps_s ps) = w @ ?tok @ ?rest"
      using Cons.prems(2) by (simp add: chunks_text_Cons chunk_text_def Comment)
    have nw: "\<not> white (hd ?tok)"
      using Cons.prems(1) Comment by (auto simp: white_simps)
    have lx: "lex_tok_list (?tok @ ?rest) = Inr ?tok"
      using Cons.prems(1) Comment by (intro lex_tok_comment) simp_all
    have "lex_block_loop acc ps =
        lex_block_loop (acc @ [?tok]) (ps\<lparr>ps_i := ps_i ps + length w + length ?tok\<rparr>)"
      using d Cons.prems(3) nw lx by (intro lex_block_loop_step [where rest = ?rest]) simp_all
    also have "\<dots> = Inr ((acc @ [?tok]) @ concat (map chunk_tokens cs))"
      using drop_shift2 [OF d] by (intro next_ih [OF st]) simp
    finally show ?thesis
      by (simp add: Comment)
  next
    case (WordAddress l a)
    let ?n = "addr_text a"
    have sa: "stable_addr l a"
      using Cons.prems(1) WordAddress by simp
    then have letter: "l \<in> set double_letters \<or> l \<in> set int_letters"
      by (auto simp: stable_addr_def split: addr_value.splits)
    have nt: "num_text ?n"
      using sa show_int_num_chars show_nat_not_Nil
      by (auto simp: stable_addr_def addr_text_def num_text_def show_int_def split: addr_value.splits)
    have d: "drop (ps_i ps) (ps_s ps) = w @ [l] @ (?n @ ?rest)"
      using Cons.prems(2) by (simp add: chunks_text_Cons chunk_text_def WordAddress)
    have lx1: "lex_tok_list ([l] @ (?n @ ?rest)) = Inr [l]"
      using letter_plain [OF letter] by (intro lex_tok_single) (auto simp: word_char_def)
    define ps1 where "ps1 = ps\<lparr>ps_i := ps_i ps + length w + length [l]\<rparr>"
    have s1: "lex_block_loop acc ps = lex_block_loop (acc @ [[l]]) ps1"
      unfolding ps1_def
      using d Cons.prems(3) lx1 letter_plain [OF letter]
      by (intro lex_block_loop_step [where rest = "?n @ ?rest"]) simp_all
    have d1: "drop (ps_i ps1) (ps_s ps1) = [] @ ?n @ ?rest"
      using drop_shift2 [OF d] by (simp add: ps1_def)
    have lx2: "lex_tok_list (?n @ ?rest) = Inr ?n"
      using nt by (intro lex_tok_num) (simp_all add: is_num_char_def isdigit_def)
    have nw2: "?n \<noteq> []" "\<not> white (hd ?n)"
      using nt by (cases ?n; auto simp: num_text_def num_char_not_white)+
    define ps2 where "ps2 = ps1\<lparr>ps_i := ps_i ps1 + length ([]::string) + length ?n\<rparr>"
    have s2: "lex_block_loop (acc @ [[l]]) ps1 = lex_block_loop ((acc @ [[l]]) @ [?n]) ps2"
      unfolding ps2_def
      using d1 nw2 lx2 by (intro lex_block_loop_step [where rest = ?rest]) simp_all
    have d2: "drop (ps_i ps2) (ps_s ps2) = ?rest"
      using drop_shift2 [OF d1] by (simp add: ps2_def)
    have "lex_block_loop ((acc @ [[l]]) @ [?n]) ps2 = Inr (((acc @ [[l]]) @ [?n]) @ concat (map chunk_tokens cs))"
      using d2 by (intro next_ih [OF st])
    then show ?thesis
      using s1 s2 by (simp add: WordAddress)
  next
    case Percent
    have d: "drop (ps_i ps) (ps_s ps) = w @ ''%'' @ ?rest"
      using Cons.prems(2) by (simp add: chunks_text_Cons chunk_text_def Percent)
    have lx: "lex_tok_list (''%'' @ ?rest) = Inr ''%''"
      by (simp add: lex_tok_list_def is_num_char_def isdigit_def)
    have "lex_block_loop acc ps =
        lex_block_loop (acc @ [''%'']) (ps\<lparr>ps_i := ps_i ps + length w + length ''%''\<rparr>)"
      using d Cons.prems(3) lx by (intro lex_block_loop_step [where rest = ?rest]) (simp_all add: white_simps)
    also have "\<dots> = Inr ((acc @ [''%'']) @ concat (map chunk_tokens cs))"
      using drop_shift2 [OF d] by (intro next_ih [OF st]) simp
    finally show ?thesis
      by (simp add: Percent)
  next
    case (Word l)
    have wc: "word_char l"
      using Cons.prems(1) Word by simp
    have d: "drop (ps_i ps) (ps_s ps) = w @ [l] @ ?rest"
      using Cons.prems(2) by (simp add: chunks_text_Cons chunk_text_def Word)
    have lx: "lex_tok_list ([l] @ ?rest) = Inr [l]"
      using wc by (intro lex_tok_single) (simp_all add: is_num_char_def isdigit_def)
    have "lex_block_loop acc ps =
        lex_block_loop (acc @ [[l]]) (ps\<lparr>ps_i := ps_i ps + length w + length [l]\<rparr>)"
      using d Cons.prems(3) lx wc
      by (intro lex_block_loop_step [where rest = ?rest]) (simp_all add: word_char_def)
    also have "\<dots> = Inr ((acc @ [[l]]) @ concat (map chunk_tokens cs))"
      using drop_shift2 [OF d] by (intro next_ih [OF st]) simp
    finally show ?thesis
      by (simp add: Word)
  qed
qed

lemma digits_value_snoc: "digits_value (xs @ [c]) = 10 * digits_value xs + digit_of c"
  by (simp add: digits_value_def)

lemma digit_of_nth: "k < 10 \<Longrightarrow> digit_of (''0123456789'' ! k) = int k"
  by (auto simp: less_Suc_eq numeral_eq_Suc digit_of_def)

lemma digit_of_digit_char: "0 \<le> d \<Longrightarrow> d < 10 \<Longrightarrow> digit_of (digit_char d) = d"
  using digit_of_nth [of "nat d"] by (simp add: digit_char_def)

lemma digits_value_show_nat: "0 \<le> n \<Longrightarrow> digits_value (show_nat n) = n"
proof (induction n rule: show_nat.induct)
  case (1 n)
  show ?case
  proof (cases "n < 10")
    case True
    then show ?thesis
      using "1.prems"
      by (subst show_nat.simps) (simp add: digits_value_def digit_of_digit_char)
  next
    case False
    then have "digits_value (show_nat (n div 10)) = n div 10"
      using "1.IH" "1.prems" by simp
    moreover have "digit_of (digit_char (n mod 10)) = n mod 10"
      by (rule digit_of_digit_char) simp_all
    ultimately show ?thesis
      using False by (subst show_nat.simps) (simp add: digits_value_snoc)
  qed
qed

lemma digit_not_sign: "isdigit c \<Longrightarrow> \<not> isspace c \<and> c \<noteq> CHR ''-'' \<and> c \<noteq> CHR ''+''"
  by (auto simp: isdigit_def isspace_def)

lemma stoi_show_int:
  assumes "- (2 ^ 31) \<le> n" and "n \<le> 2 ^ 31 - 1"
  shows "stoi (show_int n) = Inr n"
proof -
  have tw: "takeWhile isdigit (show_nat m) = show_nat m" if "0 \<le> m" for m
    using show_nat_digits [OF that] by (simp add: takeWhile_eq_all_conv list_all_iff)
  show ?thesis
  proof (cases "n < 0")
    case True
    then have si: "show_int n = CHR ''-'' # show_nat (- n)"
      by (simp add: show_int_def)
    have tw': "takeWhile isdigit (show_nat (- n)) = show_nat (- n)"
      using True by (intro tw) simp
    have dv: "digits_value (show_nat (- n)) = - n"
      using True by (intro digits_value_show_nat) simp
    show ?thesis
      using assms show_nat_not_Nil [of "- n"]
      by (simp add: stoi_def si split_sign_def isspace_def Let_def tw' dv)
  next
    case False
    then have nn: "0 \<le> n" by simp
    obtain c r where cr: "show_nat n = c # r"
      using show_nat_not_Nil [of n] by (cases "show_nat n") auto
    then have "isdigit c"
      using show_nat_digits [OF nn] by simp
    then have c: "\<not> isspace c" "c \<noteq> CHR ''-''" "c \<noteq> CHR ''+''"
      using digit_not_sign by blast+
    have sp: "split_sign (dropWhile isspace (show_nat n)) = (False, show_nat n)"
      using c by (simp add: cr split_sign_def)
    show ?thesis
      using False assms show_nat_not_Nil [of n]
      by (simp add: stoi_def show_int_def sp Let_def tw [OF nn] digits_value_show_nat [OF nn])
  qed
qed

lemma stream_at:
  "drop (ps_i ps) (ps_s ps) = a # rest \<Longrightarrow> chars_left ps \<and> stream_next ps = Inr a"
proof -
  assume d: "drop (ps_i ps) (ps_s ps) = a # rest"
  then have lt: "ps_i ps < length (ps_s ps)"
    by (cases "ps_i ps < length (ps_s ps)") auto
  then have "ps_s ps ! ps_i ps = a"
    using d by (simp add: hd_drop_conv_nth [symmetric])
  then show ?thesis
    using lt by (simp add: chars_left_def stream_next_def)
qed

lemma stream_at2:
  "drop (ps_i ps) (ps_s ps) = a # b # rest \<Longrightarrow> remaining_plus_1 beyond ps = b"
proof -
  assume d: "drop (ps_i ps) (ps_s ps) = a # b # rest"
  have "length (drop (ps_i ps) (ps_s ps)) = Suc (Suc (length rest))"
    by (simp add: d)
  then have lt: "ps_i ps + 1 < length (ps_s ps)"
    by simp
  have "ps_s ps ! (ps_i ps + 1) = drop (ps_i ps) (ps_s ps) ! 1"
    using lt by simp
  then show ?thesis
    using lt by (simp add: remaining_plus_1_def d)
qed

lemma stream_at_end:
  "drop (ps_i ps) (ps_s ps) = [] \<Longrightarrow> \<not> chars_left ps"
  by (simp add: chars_left_def)

lemma first_token:
  assumes "cs \<noteq> []"
  shows "\<exists>tok rest. concat (map chunk_tokens cs) = tok # rest \<and> front tok = first_char (hd cs)"
proof -
  from assms obtain c cs' where "cs = c # cs'"
    by (cases cs) auto
  then show ?thesis
    by (cases c) (simp_all add: front_def)
qed

lemma letters_disjoint: "c \<in> set int_letters \<Longrightarrow> c \<notin> set double_letters"
  by (auto simp: int_letters_def double_letters_def)

lemma addr_eq:
  "ad_type a = t \<Longrightarrow> val a = v \<Longrightarrow> a = \<lparr>ad_type = t, val = v\<rparr>"
  by (cases a) simp

lemma parse_address_stable:
  assumes "stable_addr l a" and "drop (ps_i ps) (ps_s ps) = addr_text a # rest"
  shows "parse_address l ps = Inr (a, advance ps)"
proof (cases "val a")
  case (Dbl_val d)
  with assms(1) have s: "ad_type a = ADDRESS_TYPE_DOUBLE" "l \<in> set double_letters"
    "stod (show_double d) = Inr d"
    by (simp_all add: stable_addr_def)
  have "a = make_double_address d"
    using s(1) Dbl_val by (simp add: make_double_address_def addr_eq)
  moreover have "stream_next ps = Inr (show_double d)"
    using stream_at [OF assms(2)] Dbl_val by (simp add: addr_text_def)
  ultimately show ?thesis
    using s by (simp add: parse_address_def parse_double_def)
next
  case (Int_val n)
  with assms(1) have s: "ad_type a = ADDRESS_TYPE_INTEGER" "l \<in> set int_letters"
    "- (2 ^ 31) \<le> n" "n \<le> 2 ^ 31 - 1"
    by (simp_all add: stable_addr_def)
  have "a = make_int_address n"
    using s(1) Int_val by (simp add: make_int_address_def addr_eq)
  moreover have "stream_next ps = Inr (show_int n)"
    using stream_at [OF assms(2)] Int_val by (simp add: addr_text_def)
  moreover have "stoi (show_int n) = Inr n"
    using s(3,4) by (rule stoi_show_int)
  ultimately show ?thesis
    using s(2) letters_disjoint [OF s(2)] by (simp add: parse_address_def parse_int_def)
qed

lemma num_text_front: "num_text t \<Longrightarrow> is_num_char (front t)"
  by (cases t) (simp_all add: num_text_def front_def)

lemma stable_addr_num_text: "stable_addr l a \<Longrightarrow> num_text (addr_text a)"
  using show_int_num_chars show_nat_not_Nil
  by (auto simp: stable_addr_def addr_text_def num_text_def show_int_def split: addr_value.splits)

lemma stable_addr_letter:
  "stable_addr l a \<Longrightarrow> l \<in> set double_letters \<or> l \<in> set int_letters"
  by (auto simp: stable_addr_def split: addr_value.splits)

lemma parse_chunk_stable:
  assumes st: "stable_chunks (c # cs)"
    and d: "drop (ps_i ps) (ps_s ps) = chunk_tokens c @ concat (map chunk_tokens cs)"
  shows "parse_chunk beyond ps = Inr (c, ps\<lparr>ps_i := ps_i ps + length (chunk_tokens c)\<rparr>)"
proof (cases c)
  case (Comment l r t)
  let ?tok = "l # t @ [r]"
  have d': "drop (ps_i ps) (ps_s ps) = ?tok # concat (map chunk_tokens cs)"
    using d Comment by simp
  have nx: "chars_left ps" "stream_next ps = Inr ?tok"
    using stream_at [OF d'] by simp_all
  have len: "length ?tok < 2 ^ 64"
    using st Comment by simp
  have "substr ?tok (Suc 0) (size_t_minus (length ?tok) 2) = Inr (butlast (tl ?tok))"
    using _ len by (rule substr_strip) simp
  then have sub: "substr ?tok (Suc 0) (size_t_minus (length ?tok) 2) = Inr t"
    by simp
  have lr: "l = CHR ''('' \<and> r = CHR '')'' \<or> l = CHR ''['' \<and> r = CHR '']''"
    using st Comment by simp
  have "parse_chunk beyond ps = Inr (Comment l r t, advance ps)"
    using lr
    by (auto simp only: parse_chunk_def nx sub front_def list.case sum.case One_nat_def
        if_True if_False not_True_eq_False simp_thms char.inject)
  then show ?thesis
    by (simp add: Comment advance_def)
next
  case (WordAddress l a)
  have sa: "stable_addr l a"
    using st WordAddress by simp
  have d': "drop (ps_i ps) (ps_s ps) = [l] # addr_text a # concat (map chunk_tokens cs)"
    using d WordAddress by simp
  have nx: "chars_left ps" "stream_next ps = Inr [l]"
    using stream_at [OF d'] by simp_all
  have la: "remaining_plus_1 beyond ps = addr_text a"
    using stream_at2 [OF d'] .
  have nf: "is_num_char (front (addr_text a))"
    using sa by (intro num_text_front stable_addr_num_text)
  have pl: "l \<noteq> CHR ''[''" "l \<noteq> CHR ''(''" "l \<noteq> CHR ''%''" "l \<noteq> CHR '';''"
    using letter_plain [OF stable_addr_letter [OF sa]] by auto
  have "drop (ps_i (advance ps)) (ps_s (advance ps)) = addr_text a # concat (map chunk_tokens cs)"
    using drop_shift2 [of "ps_i ps" "ps_s ps" "[]" "[[l]]"] d' by (simp add: advance_def)
  then have "parse_address l (advance ps) = Inr (a, advance (advance ps))"
    using sa by (intro parse_address_stable)
  then show ?thesis
    using nx la nf pl
    by (simp add: parse_chunk_def parse_word_address_def front_def WordAddress advance_def)
next
  case Percent
  have d': "drop (ps_i ps) (ps_s ps) = ''%'' # concat (map chunk_tokens cs)"
    using d Percent by simp
  show ?thesis
    using stream_at [OF d']
    by (simp add: parse_chunk_def front_def Percent advance_def make_percent_chunk_def)
next
  case (Word l)
  have wc: "word_char l" and ne: "cs \<noteq> []" and nn: "\<not> is_num_char (first_char (hd cs))"
    using st Word by simp_all
  obtain tok rest where tr: "concat (map chunk_tokens cs) = tok # rest"
    "front tok = first_char (hd cs)"
    using first_token [OF ne] by blast
  have d': "drop (ps_i ps) (ps_s ps) = [l] # tok # rest"
    using d Word tr by simp
  have nx: "chars_left ps" "stream_next ps = Inr [l]"
    using stream_at [OF d'] by simp_all
  have la: "remaining_plus_1 beyond ps = tok"
    using stream_at2 [OF d'] .
  have pl: "l \<noteq> CHR ''[''" "l \<noteq> CHR ''(''" "l \<noteq> CHR ''%''" "l \<noteq> CHR '';''"
    using wc by (auto simp: word_char_def)
  show ?thesis
    using nx la nn tr(2) pl
    by (simp add: parse_chunk_def parse_isolated_word_def front_def Word advance_def
        make_isolated_word_def)
qed

lemma chunk_tokens_not_Nil: "chunk_tokens c \<noteq> []"
  by (cases c) simp_all

lemma parse_chunks_stable:
  assumes "stable_chunks cs" and "drop (ps_i ps) (ps_s ps) = concat (map chunk_tokens cs)"
  shows "parse_chunks_loop beyond acc ps = Inr (acc @ cs)"
  using assms
proof (induction cs arbitrary: acc ps)
  case Nil
  then show ?case
    by (subst parse_chunks_loop.simps) (simp add: chars_left_def)
next
  case (Cons c cs)
  have d: "drop (ps_i ps) (ps_s ps) = chunk_tokens c @ concat (map chunk_tokens cs)"
    using Cons.prems(2) by simp
  obtain tok rest where "chunk_tokens c @ concat (map chunk_tokens cs) = tok # rest"
    using chunk_tokens_not_Nil [of c] by (cases "chunk_tokens c") auto
  then have cl: "chars_left ps"
    using stream_at [of ps tok rest] d by simp
  define ps' where "ps' = ps\<lparr>ps_i := ps_i ps + length (chunk_tokens c)\<rparr>"
  have pc: "parse_chunk beyond ps = Inr (c, ps')"
    unfolding ps'_def using Cons.prems(1) d by (rule parse_chunk_stable)
  have st: "stable_chunks cs"
    using Cons.prems(1) by (cases c) simp_all
  have "drop (ps_i ps') (ps_s ps') = concat (map chunk_tokens cs)"
    using drop_shift2 [of "ps_i ps" "ps_s ps" "[]" "chunk_tokens c"] d by (simp add: ps'_def)
  then have "parse_chunks_loop beyond (acc @ [c]) ps' = Inr ((acc @ [c]) @ cs)"
    using st by (intro Cons.IH)
  then show ?case
    using cl pc by (subst parse_chunks_loop.simps) simp
qed

text \<open>
  The tokens and the text of a block and the text of a program, as \<^verbatim>\<open>print\<close> writes
  them. A block survives when its chunks do, and it has a line number in the range of
  \<^verbatim>\<open>int\<close>, or at least one chunk, the first of which starts with neither \<^verbatim>\<open>/\<close> nor
  \<^verbatim>\<open>N\<close>.
\<close>

definition block_tokens :: "block \<Rightarrow> string list" where
  "block_tokens b =
     (if has_line_no b then [''N'', show_int (line_no b)] else [])
     @ concat (map chunk_tokens (chunks b))"

definition block_text :: "block \<Rightarrow> string" where
  "block_text b =
     (if has_line_no b then ''N'' @ show_int (line_no b) @ '' '' else [])
     @ chunks_text (chunks b)"

definition program_text :: "block list \<Rightarrow> string" where
  "program_text p = concat (map (\<lambda>b. block_text b @ [CHR 0x0A]) p)"

definition stable_block :: "block \<Rightarrow> bool" where
  "stable_block b =
     (stable_chunks (chunks b) \<and> debug_text b = []
      \<and> (if has_line_no b then - (2 ^ 31) \<le> line_no b \<and> line_no b \<le> 2 ^ 31 - 1
         else line_no b = - 1 \<and> chunks b \<noteq> []
              \<and> first_char (hd (chunks b)) \<notin> set ''/N''))"

definition undelete :: "block \<Rightarrow> block" where
  "undelete b = b\<lparr>slashed_out := False\<rparr>"

lemma print_chunk_stable:
  "stable_chunks (c # cs) \<Longrightarrow> print_chunk c = Inr (chunk_text c)"
  by (cases c)
     (auto simp: chunk_text_def stable_addr_def addr_text_def print_addr_def tp_def
        double_value_def int_value_def split: addr_value.splits)

lemma stable_chunks_tl: "stable_chunks (c # cs) \<Longrightarrow> stable_chunks cs"
  by (cases c) simp_all

lemma print_chunks_stable:
  "stable_chunks cs \<Longrightarrow> print_chunks cs out = Inr (out @ chunks_text cs)"
proof (induction cs arbitrary: out)
  case Nil
  then show ?case by (simp add: chunks_text_def)
next
  case (Cons c cs)
  then show ?case
    using print_chunk_stable [OF Cons.prems] stable_chunks_tl [OF Cons.prems]
    by (simp add: chunks_text_Cons)
qed

lemma print_block_stable: "stable_block b \<Longrightarrow> print_block b = Inr (block_text b)"
  by (simp add: stable_block_def print_block_fields print_chunks_stable block_text_def)

lemma print_program_stable:
  "list_all stable_block p \<Longrightarrow> print_program p out = Inr (out @ program_text p)"
  by (induction p arbitrary: out) (simp_all add: program_text_def print_block_stable)

lemma chunk_text_hd:
  assumes "stable_chunks (c # cs)"
  shows "\<exists>x xs. chunk_text c = x # xs \<and> x = first_char c \<and> \<not> white x"
proof (cases c)
  case (Comment l r t)
  then show ?thesis
    using assms by (auto simp: chunk_text_def white_simps)
next
  case (WordAddress l a)
  then show ?thesis
    using assms letter_plain [OF stable_addr_letter, of l a] by (simp add: chunk_text_def)
next
  case Percent
  then show ?thesis
    by (simp add: chunk_text_def white_simps)
next
  case (Word l)
  then show ?thesis
    using assms by (simp add: chunk_text_def word_char_def)
qed

lemma lex_block_stable:
  assumes "stable_block b"
  shows "lex_block (block_text b) = Inr (block_tokens b)"
proof (cases "has_line_no b")
  case False
  with assms obtain c cs where cs: "chunks b = c # cs" and st: "stable_chunks (c # cs)"
    by (cases "chunks b") (auto simp: stable_block_def)
  obtain x xs where x: "chunk_text c = x # xs" "\<not> white x"
    using chunk_text_hd [OF st] by blast
  have "takeWhile (\<lambda>c. isspace c \<or> c = CHR 0x0D) (block_text b) = []"
    using x False by (simp add: block_text_def cs chunks_text_Cons white_def)
  then have iw: "ignore_whitespace (parse_stream (block_text b)) = parse_stream (block_text b)"
    by (simp add: ignore_whitespace_eq parse_stream_def)
  have "lex_block_loop [] (parse_stream (block_text b)) = Inr ([] @ concat (map chunk_tokens (chunks b)))"
    using st False by (intro lex_chunks [where w = "[]"]) (simp_all add: cs parse_stream_def block_text_def)
  then show ?thesis
    using False by (simp add: lex_block_def iw block_tokens_def)
next
  case True
  let ?n = "show_int (line_no b)"
  let ?rest = "'' '' @ chunks_text (chunks b)"
  define ps where "ps = parse_stream (block_text b)"
  have st: "stable_chunks (chunks b)"
    using assms by (simp add: stable_block_def)
  have bt: "block_text b = ''N'' @ ?n @ ?rest"
    using True by (simp add: block_text_def)
  have iw: "ignore_whitespace ps = ps"
    by (simp add: ignore_whitespace_eq parse_stream_def ps_def bt isspace_def)
  have d: "drop (ps_i ps) (ps_s ps) = [] @ ''N'' @ (?n @ ?rest)"
    by (simp add: ps_def parse_stream_def bt)
  have nt: "num_text ?n"
    using show_int_num_chars [of "line_no b"] show_nat_not_Nil
    by (simp add: num_text_def show_int_def)
  have lx1: "lex_tok_list (''N'' @ (?n @ ?rest)) = Inr ''N''"
    by (simp add: lex_tok_list_def is_num_char_def isdigit_def)
  define ps1 where "ps1 = ps\<lparr>ps_i := ps_i ps + length ([]::string) + length ''N''\<rparr>"
  have s1: "lex_block_loop [] ps = lex_block_loop ([] @ [''N'']) ps1"
    unfolding ps1_def
    using d lx1 by (intro lex_block_loop_step [where rest = "?n @ ?rest"]) (simp_all add: white_simps)
  have d1: "drop (ps_i ps1) (ps_s ps1) = [] @ ?n @ ?rest"
    using drop_shift2 [OF d] by (simp add: ps1_def)
  have lx2: "lex_tok_list (?n @ ?rest) = Inr ?n"
    using nt by (intro lex_tok_num) (simp_all add: is_num_char_def isdigit_def)
  have nw2: "?n \<noteq> []" "\<not> white (hd ?n)"
    using nt by (cases ?n; auto simp: num_text_def num_char_not_white)+
  define ps2 where "ps2 = ps1\<lparr>ps_i := ps_i ps1 + length ([]::string) + length ?n\<rparr>"
  have s2: "lex_block_loop ([] @ [''N'']) ps1 = lex_block_loop (([] @ [''N'']) @ [?n]) ps2"
    unfolding ps2_def
    using d1 nw2 lx2 by (intro lex_block_loop_step [where rest = ?rest]) simp_all
  have d2: "drop (ps_i ps2) (ps_s ps2) = '' '' @ chunks_text (chunks b)"
    using drop_shift2 [OF d1] by (simp add: ps2_def)
  have "lex_block_loop (([] @ [''N'']) @ [?n]) ps2 =
      Inr ((([] @ [''N'']) @ [?n]) @ concat (map chunk_tokens (chunks b)))"
    using st d2 by (intro lex_chunks [where w = "'' ''"]) (simp_all add: white_simps)
  then show ?thesis
    using s1 s2 True by (simp add: lex_block_def iw [unfolded ps_def] ps_def block_tokens_def)
qed

lemma block_eq:
  "has_line_no b = h \<Longrightarrow> line_no b = n \<Longrightarrow> chunks b = cs \<Longrightarrow> debug_text b = [] \<Longrightarrow>
   undelete b = \<lparr>has_line_no = h, line_no = n, slashed_out = False, chunks = cs, debug_text = []\<rparr>"
  by (cases b) (simp add: undelete_def)

lemma parse_tokens_stable:
  assumes "stable_block b"
  shows "parse_tokens beyond (block_tokens b) = Inr (undelete b)"
proof (cases "has_line_no b")
  case True
  let ?n = "show_int (line_no b)"
  let ?toks = "''N'' # ?n # concat (map chunk_tokens (chunks b))"
  have bt: "block_tokens b = ?toks"
    using True by (simp add: block_tokens_def)
  have st: "stable_chunks (chunks b)" and rng: "- (2 ^ 31) \<le> line_no b" "line_no b \<le> 2 ^ 31 - 1"
    and dt: "debug_text b = []"
    using assms True by (simp_all add: stable_block_def)
  have sl: "parse_slash (parse_stream ?toks) = Inr (False, parse_stream ?toks)"
    by (simp add: parse_slash_def parse_stream_def stream_next_def is_slash_def front_def)
  have si: "stoi ?n = Inr (line_no b)"
    using rng by (rule stoi_show_int)
  have ln: "parse_line_number (parse_stream ?toks) =
      Inr ((True, line_no b), \<lparr>ps_i = 2, ps_s = ?toks\<rparr>)"
    by (simp add: parse_line_number_def parse_stream_def stream_next_def parse_int_def
        advance_def si)
  have "parse_chunks_loop beyond [] \<lparr>ps_i = 2, ps_s = ?toks\<rparr> = Inr ([] @ chunks b)"
    using st by (intro parse_chunks_stable) simp_all
  then show ?thesis
    using True dt
    by (simp add: parse_tokens_def bt sl ln block_numbered_def block_eq)
next
  case False
  with assms obtain c cs where cs: "chunks b = c # cs" and st: "stable_chunks (c # cs)"
    and fc: "first_char c \<noteq> CHR ''/''" "first_char c \<noteq> CHR ''N''"
    and ln1: "line_no b = - 1" and dt: "debug_text b = []"
    by (cases "chunks b") (auto simp: stable_block_def)
  let ?toks = "concat (map chunk_tokens (chunks b))"
  have bt: "block_tokens b = ?toks"
    using False by (simp add: block_tokens_def)
  obtain tok rest where tr: "?toks = tok # rest" "front tok = first_char c"
    using first_token [of "chunks b"] cs by auto
  have t1: "\<not> is_slash tok"
    using tr(2) fc(1) by (auto simp: is_slash_def)
  have t2: "tok \<noteq> ''N''"
    using tr(2) fc(2) by (auto simp: front_def)
  have sl: "parse_slash (parse_stream ?toks) = Inr (False, parse_stream ?toks)"
    using t1 by (simp add: parse_slash_def parse_stream_def stream_next_def tr(1))
  have ln: "parse_line_number (parse_stream ?toks) = Inr ((False, - 1), parse_stream ?toks)"
    using t2 by (simp add: parse_line_number_def parse_stream_def stream_next_def tr(1))
  have "parse_chunks_loop beyond [] (parse_stream ?toks) = Inr ([] @ chunks b)"
    using st by (intro parse_chunks_stable) (simp_all add: cs parse_stream_def)
  moreover have "length ?toks \<noteq> 0"
    by (simp only: tr(1)) simp
  ultimately show ?thesis
    using False dt ln1
    by (simp only: parse_tokens_def bt sl ln if_False sum.case prod.case fst_conv snd_conv)
       (simp add: block_plain_def block_eq)
qed

lemma parse_line_stable: "stable_block b \<Longrightarrow> parse_line beyond (block_text b) = Inr (undelete b)"
  by (simp add: parse_line_def lex_block_stable parse_tokens_stable)

lemma split_lines_line:
  "CHR 0x0A \<notin> set l \<Longrightarrow> split_lines (l @ CHR 0x0A # rest) = l # split_lines rest"
  by (induction l) auto

lemma num_char_not_newline: "is_num_char c \<Longrightarrow> c \<noteq> CHR 0x0A"
  by (auto simp: is_num_char_def isdigit_def)

lemma num_text_no_newline: "num_text t \<Longrightarrow> CHR 0x0A \<notin> set t"
  using num_char_not_newline by (auto simp: num_text_def list_all_iff)

lemma chunk_text_no_newline:
  assumes "stable_chunks (c # cs)"
  shows "CHR 0x0A \<notin> set (chunk_text c)"
proof (cases c)
  case (Comment l r t)
  then show ?thesis
    using assms by (auto simp: chunk_text_def)
next
  case (WordAddress l a)
  then have sa: "stable_addr l a"
    using assms by simp
  show ?thesis
    using letter_plain [OF stable_addr_letter [OF sa]]
      num_text_no_newline [OF stable_addr_num_text [OF sa]]
    by (auto simp: chunk_text_def WordAddress)
next
  case Percent
  then show ?thesis
    by (simp add: chunk_text_def)
next
  case (Word l)
  then show ?thesis
    using assms by (auto simp: chunk_text_def word_char_def white_def isspace_def)
qed

lemma chunks_text_no_newline:
  "stable_chunks cs \<Longrightarrow> CHR 0x0A \<notin> set (chunks_text cs)"
proof (induction cs)
  case Nil
  then show ?case by (simp add: chunks_text_def)
next
  case (Cons c cs)
  then show ?case
    using chunk_text_no_newline [OF Cons.prems] stable_chunks_tl [OF Cons.prems]
    by (simp add: chunks_text_Cons)
qed

lemma block_text_line:
  assumes "stable_block b"
  shows "block_text b \<noteq> [] \<and> CHR 0x0A \<notin> set (block_text b)"
proof -
  have st: "stable_chunks (chunks b)"
    using assms by (simp add: stable_block_def)
  have "num_text (show_int (line_no b))"
    using show_int_num_chars [of "line_no b"] show_nat_not_Nil
    by (simp add: num_text_def show_int_def)
  then have nl: "CHR 0x0A \<notin> set (block_text b)"
    using chunks_text_no_newline [OF st] num_text_no_newline
    by (auto simp: block_text_def)
  have "block_text b \<noteq> []"
  proof (cases "has_line_no b")
    case True
    then show ?thesis by (simp add: block_text_def)
  next
    case False
    with assms obtain c cs where cs: "chunks b = c # cs" "stable_chunks (c # cs)"
      by (cases "chunks b") (auto simp: stable_block_def)
    then show ?thesis
      using chunk_text_hd [OF cs(2)] by (auto simp: block_text_def chunks_text_Cons)
  qed
  with nl show ?thesis by blast
qed

lemma nonblank_program:
  "list_all stable_block p \<Longrightarrow> nonblank (split_lines (program_text p)) = map block_text p"
proof (induction p)
  case Nil
  then show ?case by (simp add: program_text_def nonblank_def)
next
  case (Cons b p)
  then have b: "block_text b \<noteq> []" "CHR 0x0A \<notin> set (block_text b)"
    using block_text_line [of b] by simp_all
  have "program_text (b # p) = block_text b @ CHR 0x0A # program_text p"
    by (simp add: program_text_def)
  then have "split_lines (program_text (b # p)) = block_text b # split_lines (program_text p)"
    using b(2) by (simp add: split_lines_line)
  then show ?case
    using Cons b(1) by (simp add: nonblank_def)
qed

lemma parse_lines_stable:
  "list_all stable_block p \<Longrightarrow> parse_lines beyond (map block_text p) acc = Inr (acc @ map undelete p)"
  by (induction p arbitrary: acc) (simp_all add: parse_line_stable)

text \<open>
  Claim C1, amended. When the parse of a text is a program whose blocks all survive
  (\<open>stable_block\<close>), rendering the program and parsing the rendered text gives a program
  of the same length whose blocks have the same chunks and the same line-number fields
  as the original ones, and none of which is deleted.
\<close>

theorem render_reparse_stable:
  assumes "parse_gcode beyond text = Inr p" and "list_all stable_block p"
  shows "print_program p [] = Inr (program_text p)
    \<and> parse_gcode beyond (program_text p) = Inr (map undelete p)
    \<and> length (map undelete p) = length p
    \<and> (\<forall>k < length p.
          chunks (map undelete p ! k) = chunks (p ! k)
          \<and> has_line_no (map undelete p ! k) = has_line_no (p ! k)
          \<and> line_no (map undelete p ! k) = line_no (p ! k)
          \<and> \<not> is_deleted (map undelete p ! k))"
proof -
  have "print_program p [] = Inr (program_text p)"
    using print_program_stable [OF assms(2), of "[]"] by simp
  moreover have "parse_gcode beyond (program_text p) = Inr (map undelete p)"
    using parse_lines_stable [OF assms(2), where acc = "[]" and beyond = beyond]
    by (simp add: parse_gcode_def lex_gprog_def lex_gprog_loop_lines nonblank_program [OF assms(2)])
  ultimately show ?thesis
    by (simp add: undelete_def is_deleted_def)
qed

lemma show_int_5: "show_int 5 = ''5''"
  by (simp add: show_int_def show_nat.simps digit_char_def)

lemma show_double_1: "show_double (Double False 1) = ''1''"
  by code_simp

lemma lex_sample:
  "lex_block ''/N5 G1 (a) X1 %'' =
     Inr [''/'', ''N'', ''5'', ''G'', ''1'', ''(a)'', ''X'', ''1'', ''%'']"
  by (simp add: lex_eval)

lemma parse_sample:
  "parse_tokens beyond [''/'', ''N'', ''5'', ''G'', ''1'', ''(a)'', ''X'', ''1'', ''%''] =
     Inr (block_numbered 5 True
       [make_word_int (CHR ''G'') 1, Comment (CHR ''('') (CHR '')'') ''a'',
        make_word_double (CHR ''X'') (Double False 1), Percent])"
  by (simp add: parse_eval stoi_small stod_1 make_word_int_def make_word_double_def)

lemma sample_program:
  "parse_gcode beyond ''/N5 G1 (a) X1 %'' =
     Inr [block_numbered 5 True
       [make_word_int (CHR ''G'') 1, Comment (CHR ''('') (CHR '')'') ''a'',
        make_word_double (CHR ''X'') (Double False 1), Percent]]"
  by (simp add: prog_eval lex_sample parse_sample)

lemma sample_stable:
  "list_all stable_block [block_numbered 5 True
       [make_word_int (CHR ''G'') 1, Comment (CHR ''('') (CHR '')'') ''a'',
        make_word_double (CHR ''X'') (Double False 1), Percent]]"
  by (simp add: stable_block_def block_numbered_def make_word_int_def make_word_double_def
      make_int_address_def make_double_address_def stable_addr_def int_letters_def
      double_letters_def show_double_1 stod_1 num_text_def is_num_char_def isdigit_def Let_def)

theorem render_reparse_stable_witness:
  "\<forall>beyond.
     parse_gcode beyond ''/N5 G1 (a) X1 %'' =
     Inr [block_numbered 5 True
       [make_word_int (CHR ''G'') 1, Comment (CHR ''('') (CHR '')'') ''a'',
        make_word_double (CHR ''X'') (Double False 1), Percent]]
   \<and> print_program [block_numbered 5 True
       [make_word_int (CHR ''G'') 1, Comment (CHR ''('') (CHR '')'') ''a'',
        make_word_double (CHR ''X'') (Double False 1), Percent]] []
      = Inr [CHR ''N'', CHR ''5'', CHR '' '', CHR ''G'', CHR ''1'', CHR '' '', CHR ''('', CHR ''a'',
             CHR '')'', CHR '' '', CHR ''X'', CHR ''1'', CHR '' '', CHR ''%'', CHR '' '', CHR 0x0A]
   \<and> parse_gcode beyond [CHR ''N'', CHR ''5'', CHR '' '', CHR ''G'', CHR ''1'', CHR '' '', CHR ''('', CHR ''a'',
             CHR '')'', CHR '' '', CHR ''X'', CHR ''1'', CHR '' '', CHR ''%'', CHR '' '', CHR 0x0A]
      = Inr [block_numbered 5 False
       [make_word_int (CHR ''G'') 1, Comment (CHR ''('') (CHR '')'') ''a'',
        make_word_double (CHR ''X'') (Double False 1), Percent]]"
  using render_reparse_stable [OF sample_program sample_stable]
  by (simp add: sample_program program_text_def block_text_def chunks_text_def chunk_text_def
      addr_text_def block_numbered_def make_word_int_def make_word_double_def
      make_int_address_def make_double_address_def show_int_1 show_int_5 show_double_1
      undelete_def)

end
